theory Spec2Isabelle
  imports Complex_Main "HOL-Library.AList"
begin

section \<open>The Web Audio backend used by the synthesiser hook\<close>

text \<open>
  The hook \<^verbatim>\<open>useSynth\<close> (src/hooks/useSynth.ts) drives browser audio nodes. The nodes are
  objects with identity, shared between the two note maps and the closures handed to
  \<^verbatim>\<open>setTimeout\<close>, so they live in an explicit store and are named by their address.
  A JavaScript number is modelled as a real; note identifiers are integers.

  An \<^verbatim>\<open>AudioParam\<close> is its timeline of scheduled automation events, in call order.
  The constructor arguments are the value and the time, as in the API calls.
\<close>

datatype automation =
    SetValueAtTime real real
  | LinearRampToValueAtTime real real
  | ExponentialRampToValueAtTime real real

fun ev_time :: "automation \<Rightarrow> real" where
  "ev_time (SetValueAtTime v t) = t"
| "ev_time (LinearRampToValueAtTime v t) = t"
| "ev_time (ExponentialRampToValueAtTime v t) = t"

fun is_ramp :: "automation \<Rightarrow> bool" where
  "is_ramp (SetValueAtTime v t) = False"
| "is_ramp (LinearRampToValueAtTime v t) = True"
| "is_ramp (ExponentialRampToValueAtTime v t) = True"

datatype waveform = Sine | Triangle

datatype dest = Destination | Node nat

text \<open>
  \<open>gain_value\<close> is what reading \<^verbatim>\<open>gainNode.gain.value\<close> returns. It is computed by the audio
  thread, so no scheduling call changes it; only the rendering step \<open>advance\<close> below does.
  A new gain node reads 1, the default of the API.
\<close>

record gain_node =
  gain_events :: "automation list"
  gain_value :: real
  gain_outputs :: "dest list"

record osc_node =
  osc_type :: waveform
  frequency :: "automation list"
  started :: bool
  stop_at :: "real option"
  osc_outputs :: "dest list"

definition new_gain :: gain_node where
  "new_gain = \<lparr>gain_events = [], gain_value = 1, gain_outputs = []\<rparr>"

definition new_osc :: osc_node where
  "new_osc = \<lparr>osc_type = Sine, frequency = [], started = False, stop_at = None,
     osc_outputs = []\<rparr>"

record AudioContext =
  currentTime :: real

text \<open>\<^verbatim>\<open>ActiveNoteData\<close> of the types file: the two node references of one voice.\<close>

record ActiveNoteData =
  oscillator :: nat
  gainNode :: nat

text \<open>
  A pending \<^verbatim>\<open>setTimeout\<close>: the delay in milliseconds and the two nodes its closure
  captured.
\<close>

record timer =
  delay_ms :: real
  t_osc :: nat
  t_gain :: nat

section \<open>The state of the hook\<close>

text \<open>
  The four refs of \<^verbatim>\<open>useSynth\<close>, then the backend: the node store, the allocation counter,
  the pending timers and the number of \<^verbatim>\<open>console.warn\<close> calls. A JavaScript \<^verbatim>\<open>Map\<close>
  iterates in insertion order, so each map is an association list with distinct keys:
  \<open>map_of\<close> is \<^verbatim>\<open>get\<close>, \<open>AList.update\<close> is \<^verbatim>\<open>set\<close> (in place for a present key, at
  the end for a new one) and \<open>AList.delete\<close> is \<^verbatim>\<open>delete\<close>.
\<close>

record synth =
  audioContext :: "AudioContext option"
  masterGainNode :: "nat option"
  activeOscillators :: "(int \<times> ActiveNoteData) list"
  sustainedOscillators :: "(int \<times> ActiveNoteData) list"
  oscs :: "nat \<Rightarrow> osc_node"
  gains :: "nat \<Rightarrow> gain_node"
  next_node :: nat
  timers :: "timer list"
  warnings :: nat

definition initial :: synth where
  "initial = \<lparr>audioContext = None, masterGainNode = None, activeOscillators = [],
     sustainedOscillators = [], oscs = (\<lambda>_. new_osc), gains = (\<lambda>_. new_gain),
     next_node = 0, timers = [], warnings = 0\<rparr>"

definition has :: "(int \<times> ActiveNoteData) list \<Rightarrow> int \<Rightarrow> bool" where
  "has m k = (map_of m k \<noteq> None)"

subsection \<open>Node operations\<close>

definition upd_gain :: "nat \<Rightarrow> (gain_node \<Rightarrow> gain_node) \<Rightarrow> synth \<Rightarrow> synth" where
  "upd_gain g f s = s\<lparr>gains := (gains s)(g := f (gains s g))\<rparr>"

definition upd_osc :: "nat \<Rightarrow> (osc_node \<Rightarrow> osc_node) \<Rightarrow> synth \<Rightarrow> synth" where
  "upd_osc r f s = s\<lparr>oscs := (oscs s)(r := f (oscs s r))\<rparr>"

text \<open>\<^verbatim>\<open>cancelScheduledValues(t)\<close> removes every event scheduled at \<open>t\<close> or later.\<close>

definition cancelScheduledValues :: "nat \<Rightarrow> real \<Rightarrow> synth \<Rightarrow> synth" where
  "cancelScheduledValues g t =
     upd_gain g (\<lambda>n. n\<lparr>gain_events := filter (\<lambda>e. ev_time e < t) (gain_events n)\<rparr>)"

definition schedule :: "nat \<Rightarrow> automation \<Rightarrow> synth \<Rightarrow> synth" where
  "schedule g e = upd_gain g (\<lambda>n. n\<lparr>gain_events := gain_events n @ [e]\<rparr>)"

definition gain_connect :: "nat \<Rightarrow> dest \<Rightarrow> synth \<Rightarrow> synth" where
  "gain_connect g d = upd_gain g (\<lambda>n. n\<lparr>gain_outputs := gain_outputs n @ [d]\<rparr>)"

definition gain_disconnect :: "nat \<Rightarrow> synth \<Rightarrow> synth" where
  "gain_disconnect g = upd_gain g (\<lambda>n. n\<lparr>gain_outputs := []\<rparr>)"

definition osc_connect :: "nat \<Rightarrow> dest \<Rightarrow> synth \<Rightarrow> synth" where
  "osc_connect r d = upd_osc r (\<lambda>n. n\<lparr>osc_outputs := osc_outputs n @ [d]\<rparr>)"

definition osc_disconnect :: "nat \<Rightarrow> synth \<Rightarrow> synth" where
  "osc_disconnect r = upd_osc r (\<lambda>n. n\<lparr>osc_outputs := []\<rparr>)"

definition osc_start :: "nat \<Rightarrow> synth \<Rightarrow> synth" where
  "osc_start r = upd_osc r (\<lambda>n. n\<lparr>started := True\<rparr>)"

text \<open>\<^verbatim>\<open>stop(when)\<close>; the call without an argument passes 0, which stops at once.\<close>

definition osc_stop :: "nat \<Rightarrow> real \<Rightarrow> synth \<Rightarrow> synth" where
  "osc_stop r t = upd_osc r (\<lambda>n. n\<lparr>stop_at := Some t\<rparr>)"

definition createOscillator :: "synth \<Rightarrow> nat \<times> synth" where
  "createOscillator s =
     (next_node s, s\<lparr>oscs := (oscs s)(next_node s := new_osc), next_node := Suc (next_node s)\<rparr>)"

definition createGain :: "synth \<Rightarrow> nat \<times> synth" where
  "createGain s =
     (next_node s, s\<lparr>gains := (gains s)(next_node s := new_gain), next_node := Suc (next_node s)\<rparr>)"

definition setTimeout :: "nat \<Rightarrow> nat \<Rightarrow> real \<Rightarrow> synth \<Rightarrow> synth" where
  "setTimeout r g ms s = s\<lparr>timers := timers s @ [\<lparr>delay_ms = ms, t_osc = r, t_gain = g\<rparr>]\<rparr>"

section \<open>The operations of the hook\<close>

text \<open>
  The mount effect: creates the context and the master gain node when the platform has an
  audio context constructor (\<open>available\<close>) and none was created before. Its cleanup closes
  the context when the component goes away and leaves the refs as they are; it is not
  modelled.
\<close>

definition mount :: "bool \<Rightarrow> synth \<Rightarrow> synth" where
  "mount available s =
     (if audioContext s = None then
        (if available then
           (let s1 = s\<lparr>audioContext := Some \<lparr>currentTime = 0\<rparr>\<rparr>;
                (m, s2) = createGain s1;
                s3 = s2\<lparr>masterGainNode := Some m\<rparr>
            in gain_connect m Destination s3)
         else s)
      else s)"

definition setMasterVolume :: "synth \<Rightarrow> real \<Rightarrow> synth" where
  "setMasterVolume s volume =
     (case (masterGainNode s, audioContext s) of
        (Some m, Some ctx) \<Rightarrow>
          (let gainValue = min 1 (max 0 (volume / 10))
           in schedule m (SetValueAtTime gainValue (currentTime ctx)) s)
      | _ \<Rightarrow> s)"

subsection \<open>The frequency of a note\<close>

text \<open>
  The frequency is computed in IEEE doubles, and for a note far from the keyboard it leaves
  their range. A positive double is a real here, up to the rounding of the last bit of a
  normal number: \<open>to_double\<close> gives infinity from the overflow threshold of rounding to
  nearest on, the nearest multiple of \<open>2 powr (-1074)\<close> (ties to even, \<open>rne\<close>) below the
  smallest normal number, and the real itself in between.
\<close>

datatype js_number = Finite real | PosInfinity

definition rne :: "real \<Rightarrow> int" where
  "rne y = (let f = \<lfloor>y\<rfloor>; d = y - of_int f
            in if d < 1/2 then f else if 1/2 < d then f + 1 else if even f then f else f + 1)"

definition to_double :: "real \<Rightarrow> js_number" where
  "to_double x =
     (if 2 powr 1024 - 2 powr 970 \<le> x then PosInfinity
      else if x < 2 powr (-1022) then Finite (of_int (rne (x / 2 powr (-1074))) * 2 powr (-1074))
      else Finite x)"

text \<open>
  \<^verbatim>\<open>440 * Math.pow(2, (midiNote - 69) / 12)\<close>: the power, then the product; a product with
  infinity is infinity.
\<close>

definition note_frequency :: "int \<Rightarrow> js_number" where
  "note_frequency midiNote =
     (case to_double (2 powr ((real_of_int midiNote - 69) / 12)) of
        PosInfinity \<Rightarrow> PosInfinity
      | Finite p \<Rightarrow> to_double (440 * p))"

text \<open>
  The volume argument is optional in the source and defaults to 0.5. Outside the
  \<^verbatim>\<open>try\<close> blocks of \<^verbatim>\<open>enforceSilence\<close> the source catches nothing. The one call of
  \<open>playNote\<close> that can throw is \<^verbatim>\<open>osc.frequency.setValueAtTime\<close>, which rejects a value
  that is not finite with a \<^verbatim>\<open>TypeError\<close>. That ends the call before anything is
  connected, started or registered; the two nodes created just before are referenced by
  nothing afterwards, so the state is the one the call started in. No other backend call
  outside the \<^verbatim>\<open>try\<close> blocks throws in the model.
\<close>

definition playNote :: "synth \<Rightarrow> int \<Rightarrow> real option \<Rightarrow> synth" where
  "playNote s midiNote volume_arg =
     (case (audioContext s, masterGainNode s) of
        (Some ctx, Some master) \<Rightarrow>
          (case map_of (sustainedOscillators s) midiNote of
             Some nd \<Rightarrow>
               (let s1 = cancelScheduledValues (gainNode nd) (currentTime ctx) s;
                    s2 = s1\<lparr>sustainedOscillators := AList.delete midiNote (sustainedOscillators s1)\<rparr>
                in s2\<lparr>activeOscillators :=
                        AList.update midiNote \<lparr>oscillator = oscillator nd, gainNode = gainNode nd\<rparr>
                          (activeOscillators s2)\<rparr>)
           | None \<Rightarrow>
               if has (activeOscillators s) midiNote then s
               else
                 (case note_frequency midiNote of
                    PosInfinity \<Rightarrow> s
                  | Finite freq \<Rightarrow>
                 (let volume = (case volume_arg of None \<Rightarrow> 0.5 | Some v \<Rightarrow> v);
                      (osc, s1) = createOscillator s;
                      (g, s2) = createGain s1;
                      s3 = upd_osc osc (\<lambda>n. n\<lparr>osc_type := Triangle\<rparr>) s2;
                      s4 = upd_osc osc
                             (\<lambda>n. n\<lparr>frequency := frequency n @ [SetValueAtTime freq (currentTime ctx)]\<rparr>) s3;
                      t = currentTime ctx;
                      attackTime = 0.015;
                      s5 = schedule g (SetValueAtTime 0 t) s4;
                      s6 = schedule g (LinearRampToValueAtTime volume (t + attackTime)) s5;
                      s7 = osc_connect osc (Node g) s6;
                      s8 = gain_connect g (Node master) s7;
                      s9 = osc_start osc s8
                  in s9\<lparr>activeOscillators :=
                          AList.update midiNote \<lparr>oscillator = osc, gainNode = g\<rparr>
                            (activeOscillators s9)\<rparr>)))
      | _ \<Rightarrow> s)"

definition stopNote :: "synth \<Rightarrow> int \<Rightarrow> bool \<Rightarrow> synth" where
  "stopNote s midiNote isGlobalSustainActive =
     (case (audioContext s, map_of (activeOscillators s) midiNote) of
        (Some ctx, Some noteData) \<Rightarrow>
          (let osc = oscillator noteData;
               g = gainNode noteData;
               releaseTime = 0.15;
               sustainDecayTime = 0.8;
               s1 = s\<lparr>activeOscillators := AList.delete midiNote (activeOscillators s)\<rparr>
           in if isGlobalSustainActive then
                (let s2 = cancelScheduledValues g (currentTime ctx) s1;
                     s3 = schedule g
                            (LinearRampToValueAtTime (gain_value (gains s2 g) * 0.4)
                               (currentTime ctx + sustainDecayTime)) s2
                 in s3\<lparr>sustainedOscillators :=
                         AList.update midiNote \<lparr>oscillator = osc, gainNode = g\<rparr>
                           (sustainedOscillators s3)\<rparr>)
              else
                (let s2 = cancelScheduledValues g (currentTime ctx) s1;
                     s3 = schedule g (SetValueAtTime (gain_value (gains s2 g)) (currentTime ctx)) s2;
                     s4 = schedule g
                            (ExponentialRampToValueAtTime 0.001 (currentTime ctx + releaseTime)) s3;
                     s5 = osc_stop osc (currentTime ctx + releaseTime + 0.05) s4
                 in setTimeout osc g ((releaseTime + 0.1) * 1000) s5))
      | _ \<Rightarrow> s)"

text \<open>The body of the \<^verbatim>\<open>forEach\<close> callback of \<^verbatim>\<open>releaseGlobalSustain\<close>, for one voice.\<close>

definition release_voice :: "AudioContext \<Rightarrow> synth \<Rightarrow> ActiveNoteData \<Rightarrow> synth" where
  "release_voice ctx s nd =
     (let osc = oscillator nd;
          g = gainNode nd;
          releaseTime = 0.2;
          s1 = cancelScheduledValues g (currentTime ctx) s;
          s2 = schedule g (SetValueAtTime (gain_value (gains s1 g)) (currentTime ctx)) s1;
          s3 = schedule g (ExponentialRampToValueAtTime 0.001 (currentTime ctx + releaseTime)) s2;
          s4 = osc_stop osc (currentTime ctx + releaseTime + 0.05) s3
      in setTimeout osc g ((releaseTime + 0.1) * 1000) s4)"

definition releaseGlobalSustain :: "synth \<Rightarrow> synth" where
  "releaseGlobalSustain s =
     (case audioContext s of
        None \<Rightarrow> s
      | Some ctx \<Rightarrow>
          (let s1 = foldl (release_voice ctx) s (map snd (sustainedOscillators s))
           in s1\<lparr>sustainedOscillators := []\<rparr>))"

text \<open>
  The five backend calls inside the \<^verbatim>\<open>try\<close> block of \<^verbatim>\<open>enforceSilence\<close>. Which of them
  throws is the backend's choice, so it is a parameter: \<open>faults nd\<close> names the first call
  that throws for the voice \<open>nd\<close>, if any. The calls before it take effect, the ones
  after it are skipped, and the \<^verbatim>\<open>catch\<close> block logs a warning.
\<close>

datatype teardown = Cancel | SetZero | Stop | DisconnectOsc | DisconnectGain

fun teardown_call :: "AudioContext \<Rightarrow> ActiveNoteData \<Rightarrow> teardown \<Rightarrow> synth \<Rightarrow> synth" where
  "teardown_call ctx nd Cancel = cancelScheduledValues (gainNode nd) (currentTime ctx)"
| "teardown_call ctx nd SetZero = schedule (gainNode nd) (SetValueAtTime 0 (currentTime ctx))"
| "teardown_call ctx nd Stop = osc_stop (oscillator nd) 0"
| "teardown_call ctx nd DisconnectOsc = osc_disconnect (oscillator nd)"
| "teardown_call ctx nd DisconnectGain = gain_disconnect (gainNode nd)"

fun try_calls ::
  "AudioContext \<Rightarrow> ActiveNoteData \<Rightarrow> teardown option \<Rightarrow> teardown list \<Rightarrow> synth \<Rightarrow> synth" where
  "try_calls ctx nd fault [] s = s"
| "try_calls ctx nd fault (c # cs) s =
     (if fault = Some c then s\<lparr>warnings := Suc (warnings s)\<rparr>
      else try_calls ctx nd fault cs (teardown_call ctx nd c s))"

definition silence_voice ::
  "AudioContext \<Rightarrow> (ActiveNoteData \<Rightarrow> teardown option) \<Rightarrow> synth \<Rightarrow> ActiveNoteData \<Rightarrow> synth" where
  "silence_voice ctx faults s nd =
     try_calls ctx nd (faults nd) [Cancel, SetZero, Stop, DisconnectOsc, DisconnectGain] s"

definition enforceSilence :: "(ActiveNoteData \<Rightarrow> teardown option) \<Rightarrow> synth \<Rightarrow> synth" where
  "enforceSilence faults s =
     (case audioContext s of
        None \<Rightarrow> s
      | Some ctx \<Rightarrow>
          (let s1 = foldl (silence_voice ctx faults) s (map snd (activeOscillators s));
               s2 = s1\<lparr>activeOscillators := []\<rparr>;
               s3 = foldl (silence_voice ctx faults) s2 (map snd (sustainedOscillators s2))
           in s3\<lparr>sustainedOscillators := []\<rparr>))"

subsection \<open>The environment: the audio thread and the timer queue\<close>

text \<open>
  Time passes on the audio clock and the audio thread recomputes what each gain parameter
  reads; \<open>render\<close> gives the new readings. The clock of a browser only moves forward,
  \<open>dt \<ge> 0\<close>; nothing below depends on it.
\<close>

definition advance :: "real \<Rightarrow> (nat \<Rightarrow> real) \<Rightarrow> synth \<Rightarrow> synth" where
  "advance dt render s =
     s\<lparr>audioContext := map_option (\<lambda>c. c\<lparr>currentTime := currentTime c + dt\<rparr>) (audioContext s),
       gains := (\<lambda>g. (gains s g)\<lparr>gain_value := render g\<rparr>)\<rparr>"

text \<open>
  The callback both release paths hand to \<^verbatim>\<open>setTimeout\<close>, and the firing of the pending
  timer at position \<open>i\<close>. The handle \<^verbatim>\<open>setTimeout\<close> returns is dropped by the source, so a
  timer leaves the queue only by firing. Any pending timer may fire at any moment, which
  covers every order and every delay with which the browser can run them.
\<close>

definition dispose :: "timer \<Rightarrow> synth \<Rightarrow> synth" where
  "dispose t s = gain_disconnect (t_gain t) (osc_disconnect (t_osc t) s)"

definition fireTimer :: "nat \<Rightarrow> synth \<Rightarrow> synth" where
  "fireTimer i s =
     (if i < length (timers s) then
        dispose (timers s ! i) (s\<lparr>timers := take i (timers s) @ drop (Suc i) (timers s)\<rparr>)
      else s)"

subsection \<open>Runs\<close>

datatype event =
    Mount bool
  | SetMasterVolume real
  | PlayNote int "real option"
  | StopNote int bool
  | ReleaseGlobalSustain
  | EnforceSilence "ActiveNoteData \<Rightarrow> teardown option"
  | Advance real "nat \<Rightarrow> real"
  | FireTimer nat

fun step :: "synth \<Rightarrow> event \<Rightarrow> synth" where
  "step s (Mount available) = mount available s"
| "step s (SetMasterVolume v) = setMasterVolume s v"
| "step s (PlayNote n v) = playNote s n v"
| "step s (StopNote n b) = stopNote s n b"
| "step s ReleaseGlobalSustain = releaseGlobalSustain s"
| "step s (EnforceSilence faults) = enforceSilence faults s"
| "step s (Advance dt render) = advance dt render s"
| "step s (FireTimer i) = fireTimer i s"

definition run :: "event list \<Rightarrow> synth" where
  "run evs = foldl step initial evs"

text \<open>The events of the environment alone: time passing and timers firing.\<close>

fun env_event :: "event \<Rightarrow> bool" where
  "env_event (Advance dt render) = True"
| "env_event (FireTimer i) = True"
| "env_event e = False"

text \<open>
  Two simple environments: a backend in which \<^verbatim>\<open>stop\<close> throws for the oscillator \<open>r\<close> and
  nothing else throws, and a rendering after which every gain parameter reads \<open>v\<close>.
\<close>

definition stop_fails_on :: "nat \<Rightarrow> ActiveNoteData \<Rightarrow> teardown option" where
  "stop_fails_on r nd = (if oscillator nd = r then Some Stop else None)"

definition steady :: "real \<Rightarrow> nat \<Rightarrow> real" where
  "steady v g = v"

text \<open>The reading of \<^verbatim>\<open>ctx.currentTime\<close>; 0 while there is no context.\<close>

definition now :: "synth \<Rightarrow> real" where
  "now s = (case audioContext s of None \<Rightarrow> 0 | Some ctx \<Rightarrow> currentTime ctx)"

subsection \<open>The keyboard handler that calls the hook\<close>


section \<open>Properties of the envelope timeline\<close>

text \<open>
  The envelope rule of the specification, as a test on a timeline: the timeline ends with
  the value \<open>cur\<close> set at time \<open>t\<close> and then one ramp, and nothing before them is
  scheduled at \<open>t\<close> or later.
\<close>

definition pinned_before_ramp :: "real \<Rightarrow> real \<Rightarrow> automation list \<Rightarrow> bool" where
  "pinned_before_ramp t cur evs =
     (case rev evs of
        r # SetValueAtTime v t' # before \<Rightarrow>
          is_ramp r \<and> v = cur \<and> t' = t \<and> list_all (\<lambda>e. ev_time e < t) before
      | _ \<Rightarrow> False)"

section \<open>Invariants of the hook\<close>

text \<open>The voice registered for a note, in either map.\<close>

definition look :: "synth \<Rightarrow> int \<Rightarrow> ActiveNoteData option" where
  "look s n = (if map_of (activeOscillators s) n = None then map_of (sustainedOscillators s) n
               else map_of (activeOscillators s) n)"

text \<open>
  The context and the master gain node are created together, and without them nothing
  is ever registered.
\<close>

definition backend_ok :: "synth \<Rightarrow> bool" where
  "backend_ok s \<longleftrightarrow>
     (audioContext s = None \<longleftrightarrow> masterGainNode s = None) \<and>
     (audioContext s = None \<longrightarrow> activeOscillators s = [] \<and> sustainedOscillators s = [])"

text \<open>Each map has distinct keys, and no note is a key of both.\<close>

definition keys_ok :: "synth \<Rightarrow> bool" where
  "keys_ok s \<longleftrightarrow>
     distinct (map fst (activeOscillators s)) \<and>
     distinct (map fst (sustainedOscillators s)) \<and>
     (\<forall>n. map_of (activeOscillators s) n = None \<or> map_of (sustainedOscillators s) n = None)"

text \<open>
  A voice is running when its oscillator was started, has no stop scheduled and feeds its
  gain node, and the gain node feeds the master gain node.
\<close>

definition voice_running :: "synth \<Rightarrow> ActiveNoteData \<Rightarrow> bool" where
  "voice_running s nd \<longleftrightarrow>
     started (oscs s (oscillator nd)) \<and>
     stop_at (oscs s (oscillator nd)) = None \<and>
     osc_outputs (oscs s (oscillator nd)) = [Node (gainNode nd)] \<and>
     (\<exists>m. masterGainNode s = Some m \<and> m \<noteq> gainNode nd \<and>
          gain_outputs (gains s (gainNode nd)) = [Node m])"

text \<open>
  Registered voices share no node, every registered voice is running and allocated, no
  pending timer holds a node of a registered voice, and every node held by a timer or
  used as master is allocated.
\<close>

definition nodes_ok :: "synth \<Rightarrow> bool" where
  "nodes_ok s \<longleftrightarrow>
     (\<forall>n1 n2 nd1 nd2. look s n1 = Some nd1 \<and> look s n2 = Some nd2 \<and>
        (oscillator nd1 = oscillator nd2 \<or> gainNode nd1 = gainNode nd2) \<longrightarrow> n1 = n2) \<and>
     (\<forall>n nd. look s n = Some nd \<longrightarrow>
        oscillator nd < next_node s \<and> gainNode nd < next_node s \<and> voice_running s nd \<and>
        (\<forall>t \<in> set (timers s). t_osc t \<noteq> oscillator nd \<and> t_gain t \<noteq> gainNode nd)) \<and>
     (\<forall>t \<in> set (timers s). t_osc t < next_node s \<and> t_gain t < next_node s) \<and>
     (\<forall>m. masterGainNode s = Some m \<longrightarrow> m < next_node s)"

definition inv :: "synth \<Rightarrow> bool" where
  "inv s \<longleftrightarrow> backend_ok s \<and> keys_ok s \<and> nodes_ok s"

section \<open>The range of the note frequency\<close>

text \<open>
  The frequency is infinite exactly from note 12252 on. It is the real value of the formula
  from note -12195 to note 12251, where the power is a normal double, and 0 up to
  note -12831.
\<close>

lemma sixth_power: "(2 powr (1/6)) ^ 6 = (2::real)"
proof -
  have "(2 powr (1/6)) ^ 6 = ((2::real) powr (1/6)) powr (real 6)"
    by (rule powr_realpow[symmetric]) simp
  also have "\<dots> = 2 powr (1/6 * real 6)" by (rule powr_powr)
  also have "\<dots> = 2" by simp
  finally show ?thesis .
qed


lemma root6: "2 powr (1/6) \<le> (247/220::real)"
proof (rule ccontr)
  assume "\<not> 2 powr (1/6) \<le> (247/220::real)"
  then have "(247/220::real) < 2 powr (1/6)" by simp
  then have "(247/220::real) ^ 6 < (2 powr (1/6)) ^ 6"
    by (rule power_strict_mono) simp_all
  then show False by (simp add: sixth_power power_divide)
qed


lemma threshold: "2 powr 1015 * (494::real) < 2 powr 1024 - 2 powr 970"
  by simp

lemma to_double_normal:
  "2 powr (-1022) \<le> x \<Longrightarrow> x < 2 powr 1024 - 2 powr 970 \<Longrightarrow> to_double x = Finite x"
  by (simp only: to_double_def) auto





lemma note_frequency_exact:
  assumes "-12195 \<le> n" "n \<le> 12251"
  shows "note_frequency n = Finite (440 * 2 powr ((real_of_int n - 69) / 12))"
proof -
  let ?e = "(real_of_int n - 69) / 12"
  let ?p = "(2::real) powr ?e"
  from assms have lo: "-1022 \<le> ?e" and hi: "?e \<le> 1015 + 1/6" by simp_all
  from lo have pl: "2 powr (-1022) \<le> ?p" by (rule powr_mono) simp
  from hi have "?p \<le> 2 powr (1015 + 1/6)" by (rule powr_mono) simp
  also have "\<dots> = 2 powr 1015 * 2 powr (1/6)" by (rule powr_add)
  also have "\<dots> \<le> 2 powr 1015 * (247/220)"
    by (rule mult_left_mono[OF root6]) simp
  finally have "440 * ?p \<le> 440 * (2 powr 1015 * (247/220))" by simp
  also have "\<dots> = 2 powr 1015 * 494" by simp
  also note threshold
  finally have ph: "440 * ?p < 2 powr 1024 - 2 powr 970" .
  have pp: "?p \<le> 440 * ?p" by simp
  have 1: "to_double ?p = Finite ?p"
    using pl pp ph by (intro to_double_normal) linarith+
  have 2: "to_double (440 * ?p) = Finite (440 * ?p)"
    using pl pp ph by (intro to_double_normal) linarith+
  show ?thesis by (simp only: note_frequency_def 1 2 js_number.case)
qed





section \<open>The invariants hold in every run\<close>

lemmas node_defs = upd_gain_def upd_osc_def cancelScheduledValues_def schedule_def
  gain_connect_def gain_disconnect_def osc_connect_def osc_disconnect_def osc_start_def
  osc_stop_def createOscillator_def createGain_def setTimeout_def

lemma release_voice_frame [simp]:
  "audioContext (release_voice ctx s nd) = audioContext s"
  "masterGainNode (release_voice ctx s nd) = masterGainNode s"
  "activeOscillators (release_voice ctx s nd) = activeOscillators s"
  "sustainedOscillators (release_voice ctx s nd) = sustainedOscillators s"
  "next_node (release_voice ctx s nd) = next_node s"
  "warnings (release_voice ctx s nd) = warnings s"
  by (simp_all add: release_voice_def node_defs Let_def)

lemma release_fold_frame [simp]:
  "audioContext (foldl (release_voice ctx) s vs) = audioContext s"
  "masterGainNode (foldl (release_voice ctx) s vs) = masterGainNode s"
  "activeOscillators (foldl (release_voice ctx) s vs) = activeOscillators s"
  "sustainedOscillators (foldl (release_voice ctx) s vs) = sustainedOscillators s"
  "next_node (foldl (release_voice ctx) s vs) = next_node s"
  "warnings (foldl (release_voice ctx) s vs) = warnings s"
  by (induction vs arbitrary: s; simp)+

lemma teardown_call_frame [simp]:
  "audioContext (teardown_call ctx nd c s) = audioContext s"
  "masterGainNode (teardown_call ctx nd c s) = masterGainNode s"
  "activeOscillators (teardown_call ctx nd c s) = activeOscillators s"
  "sustainedOscillators (teardown_call ctx nd c s) = sustainedOscillators s"
  "next_node (teardown_call ctx nd c s) = next_node s"
  "timers (teardown_call ctx nd c s) = timers s"
  by (cases c; simp add: node_defs)+

lemma try_calls_frame [simp]:
  "audioContext (try_calls ctx nd f cs s) = audioContext s"
  "masterGainNode (try_calls ctx nd f cs s) = masterGainNode s"
  "activeOscillators (try_calls ctx nd f cs s) = activeOscillators s"
  "sustainedOscillators (try_calls ctx nd f cs s) = sustainedOscillators s"
  "next_node (try_calls ctx nd f cs s) = next_node s"
  "timers (try_calls ctx nd f cs s) = timers s"
  by (induction cs arbitrary: s; simp)+

lemma silence_voice_frame [simp]:
  "audioContext (silence_voice ctx f s nd) = audioContext s"
  "masterGainNode (silence_voice ctx f s nd) = masterGainNode s"
  "activeOscillators (silence_voice ctx f s nd) = activeOscillators s"
  "sustainedOscillators (silence_voice ctx f s nd) = sustainedOscillators s"
  "next_node (silence_voice ctx f s nd) = next_node s"
  "timers (silence_voice ctx f s nd) = timers s"
  unfolding silence_voice_def by (rule try_calls_frame)+

lemma silence_fold_frame [simp]:
  "audioContext (foldl (silence_voice ctx f) s vs) = audioContext s"
  "masterGainNode (foldl (silence_voice ctx f) s vs) = masterGainNode s"
  "activeOscillators (foldl (silence_voice ctx f) s vs) = activeOscillators s"
  "sustainedOscillators (foldl (silence_voice ctx f) s vs) = sustainedOscillators s"
  "next_node (foldl (silence_voice ctx f) s vs) = next_node s"
  "timers (foldl (silence_voice ctx f) s vs) = timers s"
  by (induction vs arbitrary: s; simp)+

lemma backend_ok_step: "backend_ok s \<Longrightarrow> backend_ok (step s e)"
  by (cases e)
     (auto simp: backend_ok_def mount_def setMasterVolume_def playNote_def stopNote_def
        releaseGlobalSustain_def enforceSilence_def advance_def fireTimer_def dispose_def
        node_defs Let_def has_def split: option.splits prod.splits if_splits js_number.splits)

lemma keys_ok_step: "backend_ok s \<Longrightarrow> keys_ok s \<Longrightarrow> keys_ok (step s e)"
  by (cases e)
     (auto simp: keys_ok_def mount_def setMasterVolume_def playNote_def stopNote_def
        releaseGlobalSustain_def enforceSilence_def advance_def fireTimer_def dispose_def
        node_defs Let_def has_def update_conv' delete_conv' distinct_update distinct_delete
        split: option.splits prod.splits if_splits js_number.splits)

lemma nodes_ok_cong:
  assumes "look s' = look s" "next_node s' = next_node s" "timers s' = timers s"
    "masterGainNode s' = masterGainNode s" "oscs s' = oscs s"
    "\<And>g. gain_outputs (gains s' g) = gain_outputs (gains s g)"
  shows "nodes_ok s' = nodes_ok s"
  by (simp add: nodes_ok_def voice_running_def assms)

lemma look_cong:
  "activeOscillators s' = activeOscillators s \<Longrightarrow>
   sustainedOscillators s' = sustainedOscillators s \<Longrightarrow> look s' = look s"
  by (rule ext) (simp add: look_def)

lemma look_empty:
  "activeOscillators s = [] \<Longrightarrow> sustainedOscillators s = [] \<Longrightarrow> look s n = None"
  by (simp add: look_def)

lemma nodes_ok_mount: "backend_ok s \<Longrightarrow> nodes_ok s \<Longrightarrow> nodes_ok (mount b s)"
proof (cases "audioContext s = None \<and> b")
  case False
  assume "nodes_ok s"
  with False show ?thesis by (auto simp: mount_def)
next
  case True
  assume ok: "backend_ok s" and n: "nodes_ok s"
  from ok True have e: "activeOscillators s = []" "sustainedOscillators s = []"
    by (auto simp: backend_ok_def)
  have l: "look (mount b s) n = None" for n
    using True e by (simp add: look_def mount_def node_defs Let_def)
  have t: "timers (mount b s) = timers s" "next_node (mount b s) = Suc (next_node s)"
    "masterGainNode (mount b s) = Some (next_node s)"
    using True by (simp_all add: mount_def node_defs Let_def)
  show ?thesis using n by (auto simp: nodes_ok_def l t less_Suc_eq)
qed

lemma nodes_ok_setMasterVolume: "nodes_ok s \<Longrightarrow> nodes_ok (setMasterVolume s v)"
proof -
  have "nodes_ok (setMasterVolume s v) = nodes_ok s"
    by (rule nodes_ok_cong, rule look_cong)
       (auto simp: setMasterVolume_def node_defs Let_def split: option.splits)
  then show "nodes_ok s \<Longrightarrow> nodes_ok (setMasterVolume s v)" by simp
qed

lemma nodes_ok_advance: "nodes_ok s \<Longrightarrow> nodes_ok (advance dt r s)"
proof -
  have "nodes_ok (advance dt r s) = nodes_ok s"
    by (rule nodes_ok_cong, rule look_cong) (auto simp: advance_def)
  then show "nodes_ok s \<Longrightarrow> nodes_ok (advance dt r s)" by simp
qed

lemma keys_look:
  "keys_ok s \<Longrightarrow> map_of (sustainedOscillators s) n = Some nd \<Longrightarrow> look s n = Some nd"
  "map_of (activeOscillators s) n = Some nd \<Longrightarrow> look s n = Some nd"
proof -
  assume "keys_ok s" and su: "map_of (sustainedOscillators s) n = Some nd"
  then have "map_of (activeOscillators s) n = None"
    by (auto simp: keys_ok_def)
  with su show "look s n = Some nd" by (simp add: look_def)
next
  assume "map_of (activeOscillators s) n = Some nd"
  then show "look s n = Some nd" by (simp add: look_def)
qed

lemma nodes_ok_playNote:
  assumes k: "keys_ok s" and n: "nodes_ok s"
  shows "nodes_ok (playNote s n v)"
proof (cases "audioContext s")
  case None
  then show ?thesis using n by (simp add: playNote_def)
next
  case ctx: (Some ctx)
  show ?thesis
  proof (cases "masterGainNode s")
    case None
    then show ?thesis using n ctx by (simp add: playNote_def)
  next
    case m: (Some m)
    show ?thesis
    proof (cases "map_of (sustainedOscillators s) n")
      case su: (Some nd)
      have a: "map_of (activeOscillators s) n = None"
        using k su by (auto simp: keys_ok_def)
      have "look (playNote s n v) = look s"
        by (rule ext, cases nd)
           (auto simp add: look_def playNote_def ctx m su a Let_def node_defs update_conv' delete_conv')
      moreover have "next_node (playNote s n v) = next_node s" "timers (playNote s n v) = timers s"
        "masterGainNode (playNote s n v) = masterGainNode s" "oscs (playNote s n v) = oscs s"
        "\<And>g. gain_outputs (gains (playNote s n v) g) = gain_outputs (gains s g)"
        by (simp_all add: playNote_def ctx m su Let_def node_defs)
      ultimately have "nodes_ok (playNote s n v) = nodes_ok s" by (rule nodes_ok_cong)
      then show ?thesis using n by simp
    next
      case su: None
      show ?thesis
      proof (cases "has (activeOscillators s) n \<or> note_frequency n = PosInfinity")
        case True
        then show ?thesis using n by (auto simp: playNote_def ctx m su)
      next
        case nf: False
        then obtain freq where fr: "note_frequency n = Finite freq"
          by (cases "note_frequency n") auto
        from nf have False: "\<not> has (activeOscillators s) n" by simp
        let ?s' = "playNote s n v"
        let ?nd = "\<lparr>oscillator = next_node s, gainNode = Suc (next_node s)\<rparr>"
        have l: "look ?s' = (look s)(n \<mapsto> ?nd)"
          using False
          by (intro ext)
             (simp add: look_def playNote_def ctx m su fr Let_def node_defs update_conv' has_def)
        have p: "next_node ?s' = Suc (Suc (next_node s))" "timers ?s' = timers s"
          "masterGainNode ?s' = Some m"
          using False by (simp_all add: playNote_def ctx m su fr Let_def node_defs)
        have o: "started (oscs ?s' (next_node s))" "stop_at (oscs ?s' (next_node s)) = None"
          "osc_outputs (oscs ?s' (next_node s)) = [Node (Suc (next_node s))]"
          "gain_outputs (gains ?s' (Suc (next_node s))) = [Node m]"
          using False
          by (simp_all add: playNote_def ctx m su fr Let_def node_defs new_osc_def new_gain_def)
        have old: "r < next_node s \<Longrightarrow> oscs ?s' r = oscs s r"
          "r < next_node s \<Longrightarrow> gains ?s' r = gains s r" for r
          using False by (simp_all add: playNote_def ctx m su fr Let_def node_defs)
        have mlt: "m < next_node s" using n m by (simp add: nodes_ok_def)
        have u: "look s k = Some nd \<Longrightarrow> oscillator nd < next_node s \<and> gainNode nd < next_node s"
          for k nd using n unfolding nodes_ok_def by blast
        have c1: "look ?s' n1 = Some nd1 \<Longrightarrow> look ?s' n2 = Some nd2 \<Longrightarrow>
           oscillator nd1 = oscillator nd2 \<or> gainNode nd1 = gainNode nd2 \<Longrightarrow> n1 = n2"
          for n1 n2 nd1 nd2
        proof -
          assume h: "look ?s' n1 = Some nd1" "look ?s' n2 = Some nd2"
            "oscillator nd1 = oscillator nd2 \<or> gainNode nd1 = gainNode nd2"
          show "n1 = n2"
          proof (cases "n1 = n"; cases "n2 = n")
            assume "n1 = n" "n2 = n" then show ?thesis by simp
          next
            assume e: "n1 = n" "n2 \<noteq> n"
            with h have "nd1 = ?nd" "look s n2 = Some nd2" by (simp_all add: l)
            with u[of n2 nd2] h(3) show ?thesis by auto
          next
            assume e: "n1 \<noteq> n" "n2 = n"
            with h have "nd2 = ?nd" "look s n1 = Some nd1" by (simp_all add: l)
            with u[of n1 nd1] h(3) show ?thesis by auto
          next
            assume e: "n1 \<noteq> n" "n2 \<noteq> n"
            with h have "look s n1 = Some nd1" "look s n2 = Some nd2" by (simp_all add: l)
            with n h(3) show ?thesis unfolding nodes_ok_def by blast
          qed
        qed
        have c2: "look ?s' k = Some nd \<Longrightarrow>
            oscillator nd < next_node ?s' \<and> gainNode nd < next_node ?s' \<and> voice_running ?s' nd \<and>
            (\<forall>t \<in> set (timers ?s'). t_osc t \<noteq> oscillator nd \<and> t_gain t \<noteq> gainNode nd)"
          for k nd
        proof (cases "k = n")
          case True
          assume "look ?s' k = Some nd"
          with True have e: "nd = ?nd" by (simp add: l)
          have "\<forall>t \<in> set (timers s). t_osc t < next_node s \<and> t_gain t < next_node s"
            using n unfolding nodes_ok_def by blast
          then have "\<forall>t \<in> set (timers s). t_osc t \<noteq> next_node s \<and> t_gain t \<noteq> Suc (next_node s)"
            by fastforce
          with mlt show ?thesis by (simp add: e p o voice_running_def)
        next
          case False
          assume "look ?s' k = Some nd"
          with False have ls: "look s k = Some nd" by (simp add: l)
          with n have r: "oscillator nd < next_node s" "gainNode nd < next_node s" "voice_running s nd"
            "\<forall>t \<in> set (timers s). t_osc t \<noteq> oscillator nd \<and> t_gain t \<noteq> gainNode nd"
            unfolding nodes_ok_def by blast+
          from r(1,2,3) have "voice_running ?s' nd"
            by (simp add: voice_running_def old p m)
          with r show ?thesis by (simp add: p)
        qed
        have c3: "\<forall>t \<in> set (timers ?s'). t_osc t < next_node ?s' \<and> t_gain t < next_node ?s'"
          using n unfolding nodes_ok_def p by (simp add: less_Suc_eq)
        have c4: "\<forall>m'. masterGainNode ?s' = Some m' \<longrightarrow> m' < next_node ?s'"
          using mlt by (simp add: p)
        show ?thesis
          unfolding nodes_ok_def using c1 c2 c3 c4 by blast
      qed
    qed
  qed
qed

lemma nodes_ok_shrink:
  assumes n: "nodes_ok s"
    and l: "\<And>k v. look s' k = Some v \<Longrightarrow> look s k = Some v"
    and nx: "next_node s' = next_node s"
    and ms: "masterGainNode s' = masterGainNode s"
    and tm: "\<And>t. t \<in> set (timers s') \<Longrightarrow> t \<in> set (timers s) \<or>
               (\<exists>k v. look s k = Some v \<and> look s' k = None \<and>
                      t_osc t = oscillator v \<and> t_gain t = gainNode v)"
    and keep: "\<And>k v. look s' k = Some v \<Longrightarrow>
               oscs s' (oscillator v) = oscs s (oscillator v) \<and>
               gain_outputs (gains s' (gainNode v)) = gain_outputs (gains s (gainNode v))"
  shows "nodes_ok s'"
proof -
  have u: "look s n1 = Some nd1 \<Longrightarrow> look s n2 = Some nd2 \<Longrightarrow>
      oscillator nd1 = oscillator nd2 \<or> gainNode nd1 = gainNode nd2 \<Longrightarrow> n1 = n2"
    for n1 n2 nd1 nd2 using n unfolding nodes_ok_def by blast
  have v: "look s k = Some nd \<Longrightarrow>
      oscillator nd < next_node s \<and> gainNode nd < next_node s \<and> voice_running s nd \<and>
      (\<forall>t \<in> set (timers s). t_osc t \<noteq> oscillator nd \<and> t_gain t \<noteq> gainNode nd)"
    for k nd using n unfolding nodes_ok_def by blast
  have t: "\<forall>t \<in> set (timers s). t_osc t < next_node s \<and> t_gain t < next_node s"
    using n unfolding nodes_ok_def by blast
  have c1: "look s' n1 = Some nd1 \<Longrightarrow> look s' n2 = Some nd2 \<Longrightarrow>
      oscillator nd1 = oscillator nd2 \<or> gainNode nd1 = gainNode nd2 \<Longrightarrow> n1 = n2"
    for n1 n2 nd1 nd2 using u[of n1 nd1 n2 nd2] l by blast
  have c2: "oscillator nd < next_node s' \<and> gainNode nd < next_node s' \<and> voice_running s' nd \<and>
      (\<forall>t \<in> set (timers s'). t_osc t \<noteq> oscillator nd \<and> t_gain t \<noteq> gainNode nd)"
    if h: "look s' k = Some nd" for k nd
  proof -
    from h have ls: "look s k = Some nd" by (rule l)
    have r: "voice_running s' nd"
      using v[OF ls] keep[OF h] by (simp add: voice_running_def ms)
    have "t_osc t \<noteq> oscillator nd \<and> t_gain t \<noteq> gainNode nd" if tt: "t \<in> set (timers s')" for t
    proof -
      from tm[OF tt] show ?thesis
      proof
        assume "t \<in> set (timers s)"
        with v[OF ls] show ?thesis by blast
      next
        assume "\<exists>k v. look s k = Some v \<and> look s' k = None \<and>
                  t_osc t = oscillator v \<and> t_gain t = gainNode v"
        then obtain k' w where w: "look s k' = Some w" "look s' k' = None"
          "t_osc t = oscillator w" "t_gain t = gainNode w" by blast
        from w(2) h have "k' \<noteq> k" by auto
        with u[of k' w k nd] w(1) ls have "oscillator w \<noteq> oscillator nd" "gainNode w \<noteq> gainNode nd"
          by blast+
        with w show ?thesis by simp
      qed
    qed
    with v[OF ls] r show ?thesis by (simp add: nx)
  qed
  have c3: "\<forall>t \<in> set (timers s'). t_osc t < next_node s' \<and> t_gain t < next_node s'"
  proof
    fix t assume "t \<in> set (timers s')"
    from tm[OF this] show "t_osc t < next_node s' \<and> t_gain t < next_node s'"
      using t v by (auto simp: nx)
  qed
  have c4: "\<forall>m. masterGainNode s' = Some m \<longrightarrow> m < next_node s'"
    using n unfolding nodes_ok_def by (simp add: nx ms)
  show ?thesis unfolding nodes_ok_def using c1 c2 c3 c4 by blast
qed

lemma nodes_ok_stopNote:
  assumes k: "keys_ok s" and n: "nodes_ok s"
  shows "nodes_ok (stopNote s n b)"
proof (cases "audioContext s")
  case None
  then show ?thesis using n by (simp add: stopNote_def)
next
  case ctx: (Some ctx)
  show ?thesis
  proof (cases "map_of (activeOscillators s) n")
    case None
    then show ?thesis using n ctx by (simp add: stopNote_def)
  next
    case a: (Some nd)
    have "map_of (activeOscillators s) n = None \<or> map_of (sustainedOscillators s) n = None"
      using k by (simp add: keys_ok_def)
    with a have su: "map_of (sustainedOscillators s) n = None" by simp
    have ln: "look s n = Some nd" using a by (rule keys_look)
    show ?thesis
    proof (cases b)
      case True
      have "look (stopNote s n b) = look s"
        by (rule ext, cases nd)
           (auto simp add: look_def stopNote_def ctx a su True Let_def node_defs update_conv' delete_conv')
      moreover have "next_node (stopNote s n b) = next_node s" "timers (stopNote s n b) = timers s"
        "masterGainNode (stopNote s n b) = masterGainNode s" "oscs (stopNote s n b) = oscs s"
        "\<And>g. gain_outputs (gains (stopNote s n b) g) = gain_outputs (gains s g)"
        by (simp_all add: stopNote_def ctx a True Let_def node_defs)
      ultimately have "nodes_ok (stopNote s n b) = nodes_ok s" by (rule nodes_ok_cong)
      then show ?thesis using n by simp
    next
      case False
      let ?s' = "stopNote s n b"
      have l: "look ?s' = (look s)(n := None)"
        by (rule ext)
           (auto simp add: look_def stopNote_def ctx a su False Let_def node_defs delete_conv')
      have p: "next_node ?s' = next_node s" "masterGainNode ?s' = masterGainNode s"
        "timers ?s' = timers s @ [\<lparr>delay_ms = 250, t_osc = oscillator nd, t_gain = gainNode nd\<rparr>]"
        "\<And>g. gain_outputs (gains ?s' g) = gain_outputs (gains s g)"
        "\<And>r. r \<noteq> oscillator nd \<Longrightarrow> oscs ?s' r = oscs s r"
        by (simp_all add: stopNote_def ctx a False Let_def node_defs)
      have u: "look s k = Some v \<Longrightarrow> k \<noteq> n \<Longrightarrow> oscillator v \<noteq> oscillator nd" for k v
        using n ln unfolding nodes_ok_def by blast
      show ?thesis
      proof (rule nodes_ok_shrink[OF n])
        fix k v assume "look ?s' k = Some v"
        then have h: "k \<noteq> n" "look s k = Some v" by (auto simp: l split: if_splits)
        show "look s k = Some v" by fact
        show "oscs ?s' (oscillator v) = oscs s (oscillator v) \<and>
              gain_outputs (gains ?s' (gainNode v)) = gain_outputs (gains s (gainNode v))"
          using u[OF h(2,1)] by (simp add: p)
      next
        fix t assume "t \<in> set (timers ?s')"
        then show "t \<in> set (timers s) \<or>
               (\<exists>k v. look s k = Some v \<and> look ?s' k = None \<and>
                      t_osc t = oscillator v \<and> t_gain t = gainNode v)"
          using ln by (auto simp: p l)
      qed (simp_all add: p)
    qed
  qed
qed

lemma nodes_ok_fireTimer:
  assumes n: "nodes_ok s"
  shows "nodes_ok (fireTimer i s)"
proof (cases "i < length (timers s)")
  case False
  then show ?thesis using n by (simp add: fireTimer_def)
next
  case True
  let ?s' = "fireTimer i s"
  let ?t = "timers s ! i"
  have tin: "?t \<in> set (timers s)" using True by simp
  have l: "look ?s' = look s"
    by (rule look_cong) (simp_all add: fireTimer_def dispose_def node_defs)
  have p: "next_node ?s' = next_node s" "masterGainNode ?s' = masterGainNode s"
    "timers ?s' = take i (timers s) @ drop (Suc i) (timers s)"
    "\<And>r. r \<noteq> t_osc ?t \<Longrightarrow> oscs ?s' r = oscs s r"
    "\<And>g. g \<noteq> t_gain ?t \<Longrightarrow> gains ?s' g = gains s g"
    using True by (simp_all add: fireTimer_def dispose_def node_defs)
  have d: "look s k = Some v \<Longrightarrow> t_osc ?t \<noteq> oscillator v \<and> t_gain ?t \<noteq> gainNode v" for k v
    using n tin unfolding nodes_ok_def by blast
  show ?thesis
  proof (rule nodes_ok_shrink[OF n])
    fix k v assume "look ?s' k = Some v"
    then show h: "look s k = Some v" by (simp add: l)
    show "oscs ?s' (oscillator v) = oscs s (oscillator v) \<and>
          gain_outputs (gains ?s' (gainNode v)) = gain_outputs (gains s (gainNode v))"
      using d[OF h] by (auto simp: p)
  next
    fix t assume "t \<in> set (timers ?s')"
    then have "t \<in> set (timers s)"
      unfolding p by (auto dest: in_set_takeD in_set_dropD)
    then show "t \<in> set (timers s) \<or>
               (\<exists>k v. look s k = Some v \<and> look ?s' k = None \<and>
                      t_osc t = oscillator v \<and> t_gain t = gainNode v)" ..
  qed (simp_all add: p)
qed

lemma release_voice_other:
  "r \<noteq> oscillator nd \<Longrightarrow> oscs (release_voice ctx s nd) r = oscs s r"
  "g \<noteq> gainNode nd \<Longrightarrow> gains (release_voice ctx s nd) g = gains s g"
  by (simp_all add: release_voice_def node_defs Let_def)

lemma release_voice_own:
  "timers (release_voice ctx s nd) =
     timers s @ [\<lparr>delay_ms = 300, t_osc = oscillator nd, t_gain = gainNode nd\<rparr>]"
  "gains (release_voice ctx s nd) (gainNode nd) =
     (gains s (gainNode nd))\<lparr>gain_events :=
        filter (\<lambda>e. ev_time e < currentTime ctx) (gain_events (gains s (gainNode nd))) @
        [SetValueAtTime (gain_value (gains s (gainNode nd))) (currentTime ctx),
         ExponentialRampToValueAtTime 0.001 (currentTime ctx + 0.2)]\<rparr>"
  "oscs (release_voice ctx s nd) (oscillator nd) =
     (oscs s (oscillator nd))\<lparr>stop_at := Some (currentTime ctx + 0.25)\<rparr>"
  by (simp_all add: release_voice_def node_defs Let_def)

lemma release_fold_other:
  "r \<notin> oscillator ` set vs \<Longrightarrow> oscs (foldl (release_voice ctx) s vs) r = oscs s r"
  "g \<notin> gainNode ` set vs \<Longrightarrow> gains (foldl (release_voice ctx) s vs) g = gains s g"
  by (induction vs arbitrary: s; simp add: release_voice_other)+

lemma release_fold_timers:
  "timers (foldl (release_voice ctx) s vs) =
     timers s @ map (\<lambda>nd. \<lparr>delay_ms = 300, t_osc = oscillator nd, t_gain = gainNode nd\<rparr>) vs"
  by (induction vs arbitrary: s) (simp_all add: release_voice_own)

lemma release_fold_own:
  assumes "nd \<in> set vs" "distinct (map oscillator vs)" "distinct (map gainNode vs)"
  shows "gains (foldl (release_voice ctx) s vs) (gainNode nd) =
     (gains s (gainNode nd))\<lparr>gain_events :=
        filter (\<lambda>e. ev_time e < currentTime ctx) (gain_events (gains s (gainNode nd))) @
        [SetValueAtTime (gain_value (gains s (gainNode nd))) (currentTime ctx),
         ExponentialRampToValueAtTime 0.001 (currentTime ctx + 0.2)]\<rparr>"
    and "oscs (foldl (release_voice ctx) s vs) (oscillator nd) =
     (oscs s (oscillator nd))\<lparr>stop_at := Some (currentTime ctx + 0.25)\<rparr>"
  using assms
proof (induction vs arbitrary: s)
  case Nil
  { case 1 then show ?case by simp }
  { case 2 then show ?case by simp }
next
  case (Cons x xs)
  { case 1
    show ?case
    proof (cases "nd = x")
      case True
      with 1 have "gainNode nd \<notin> gainNode ` set xs" by auto
      then show ?thesis using True by (simp add: release_fold_other release_voice_own)
    next
      case False
      with 1 have "nd \<in> set xs" "gainNode nd \<noteq> gainNode x" by (auto simp: image_iff)
      with 1 Cons.IH(1)[of "release_voice ctx s x"] show ?thesis
        by (simp add: release_voice_other)
    qed }
  { case 2
    show ?case
    proof (cases "nd = x")
      case True
      with 2 have "oscillator nd \<notin> oscillator ` set xs" by auto
      then show ?thesis using True by (simp add: release_fold_other release_voice_own)
    next
      case False
      with 2 have "nd \<in> set xs" "oscillator nd \<noteq> oscillator x" by (auto simp: image_iff)
      with 2 Cons.IH(2)[of "release_voice ctx s x"] show ?thesis
        by (simp add: release_voice_other)
    qed }
qed

lemma teardown_call_other:
  "r \<noteq> oscillator nd \<Longrightarrow> oscs (teardown_call ctx nd c s) r = oscs s r"
  "g \<noteq> gainNode nd \<Longrightarrow> gains (teardown_call ctx nd c s) g = gains s g"
  by (cases c; simp add: node_defs)+

lemma try_calls_other:
  "r \<noteq> oscillator nd \<Longrightarrow> oscs (try_calls ctx nd f cs s) r = oscs s r"
  "g \<noteq> gainNode nd \<Longrightarrow> gains (try_calls ctx nd f cs s) g = gains s g"
  by (induction cs arbitrary: s; simp add: teardown_call_other)+

lemma silence_voice_other:
  "r \<noteq> oscillator nd \<Longrightarrow> oscs (silence_voice ctx f s nd) r = oscs s r"
  "g \<noteq> gainNode nd \<Longrightarrow> gains (silence_voice ctx f s nd) g = gains s g"
  unfolding silence_voice_def by (rule try_calls_other; assumption)+

lemma silence_fold_other:
  "r \<notin> oscillator ` set vs \<Longrightarrow> oscs (foldl (silence_voice ctx f) s vs) r = oscs s r"
  "g \<notin> gainNode ` set vs \<Longrightarrow> gains (foldl (silence_voice ctx f) s vs) g = gains s g"
  by (induction vs arbitrary: s; simp add: silence_voice_other)+

lemma silence_voice_own:
  assumes "f nd = None"
  shows "gains (silence_voice ctx f s nd) (gainNode nd) =
     (gains s (gainNode nd))\<lparr>gain_events :=
        filter (\<lambda>e. ev_time e < currentTime ctx) (gain_events (gains s (gainNode nd))) @
        [SetValueAtTime 0 (currentTime ctx)], gain_outputs := []\<rparr>"
    and "oscs (silence_voice ctx f s nd) (oscillator nd) =
     (oscs s (oscillator nd))\<lparr>stop_at := Some 0, osc_outputs := []\<rparr>"
  using assms by (simp_all add: silence_voice_def node_defs)

lemma silence_fold_own:
  assumes "nd \<in> set vs" "distinct (map oscillator vs)" "distinct (map gainNode vs)" "f nd = None"
  shows "gains (foldl (silence_voice ctx f) s vs) (gainNode nd) =
     (gains s (gainNode nd))\<lparr>gain_events :=
        filter (\<lambda>e. ev_time e < currentTime ctx) (gain_events (gains s (gainNode nd))) @
        [SetValueAtTime 0 (currentTime ctx)], gain_outputs := []\<rparr>"
    and "oscs (foldl (silence_voice ctx f) s vs) (oscillator nd) =
     (oscs s (oscillator nd))\<lparr>stop_at := Some 0, osc_outputs := []\<rparr>"
  using assms
proof (induction vs arbitrary: s)
  case Nil
  { case 1 then show ?case by simp }
  { case 2 then show ?case by simp }
next
  case (Cons x xs)
  { case 1
    show ?case
    proof (cases "nd = x")
      case True
      with 1 have "gainNode nd \<notin> gainNode ` set xs" by auto
      then show ?thesis using True 1(4) by (simp add: silence_fold_other silence_voice_own)
    next
      case False
      with 1 have "nd \<in> set xs" "gainNode nd \<noteq> gainNode x" by (auto simp: image_iff)
      with 1 Cons.IH(1)[of "silence_voice ctx f s x"] show ?thesis
        by (simp add: silence_voice_other)
    qed }
  { case 2
    show ?case
    proof (cases "nd = x")
      case True
      with 2 have "oscillator nd \<notin> oscillator ` set xs" by auto
      then show ?thesis using True 2(4) by (simp add: silence_fold_other silence_voice_own)
    next
      case False
      with 2 have "nd \<in> set xs" "oscillator nd \<noteq> oscillator x" by (auto simp: image_iff)
      with 2 Cons.IH(2)[of "silence_voice ctx f s x"] show ?thesis
        by (simp add: silence_voice_other)
    qed }
qed

lemma teardown_call_warnings [simp]: "warnings (teardown_call ctx nd c s) = warnings s"
  by (cases c; simp add: node_defs)

lemma try_calls_warnings:
  "warnings (try_calls ctx nd fault cs s) =
     warnings s + (if fault \<in> Some ` set cs then 1 else 0)"
  by (induction cs arbitrary: s) auto

lemma silence_voice_warnings:
  "warnings (silence_voice ctx f s nd) = warnings s + (if f nd = None then 0 else 1)"
proof (cases "f nd")
  case None
  then show ?thesis unfolding silence_voice_def try_calls_warnings by simp
next
  case (Some c)
  then show ?thesis unfolding silence_voice_def try_calls_warnings by (cases c; simp)
qed

lemma silence_fold_warnings:
  "warnings (foldl (silence_voice ctx f) s vs) =
     warnings s + length (filter (\<lambda>nd. f nd \<noteq> None) vs)"
  by (induction vs arbitrary: s) (simp_all add: silence_voice_warnings)

lemma sustained_member:
  assumes "keys_ok s" "(k, nd) \<in> set (sustainedOscillators s)"
  shows "map_of (sustainedOscillators s) k = Some nd" "map_of (activeOscillators s) k = None"
    "look s k = Some nd"
proof -
  show a: "map_of (sustainedOscillators s) k = Some nd"
    using assms by (simp add: keys_ok_def)
  have "map_of (activeOscillators s) k = None \<or> map_of (sustainedOscillators s) k = None"
    using assms(1) by (simp add: keys_ok_def)
  with a show b: "map_of (activeOscillators s) k = None" by simp
  from a b show "look s k = Some nd" by (simp add: look_def)
qed

lemma active_member:
  assumes "keys_ok s" "(k, nd) \<in> set (activeOscillators s)"
  shows "map_of (activeOscillators s) k = Some nd" "map_of (sustainedOscillators s) k = None"
    "look s k = Some nd"
proof -
  show a: "map_of (activeOscillators s) k = Some nd"
    using assms by (simp add: keys_ok_def)
  have "map_of (activeOscillators s) k = None \<or> map_of (sustainedOscillators s) k = None"
    using assms(1) by (simp add: keys_ok_def)
  with a show "map_of (sustainedOscillators s) k = None" by simp
  from a show "look s k = Some nd" by (simp add: look_def)
qed

lemma nodes_unique:
  "nodes_ok s \<Longrightarrow> look s n1 = Some nd1 \<Longrightarrow> look s n2 = Some nd2 \<Longrightarrow>
   oscillator nd1 = oscillator nd2 \<or> gainNode nd1 = gainNode nd2 \<Longrightarrow> n1 = n2"
  unfolding nodes_ok_def by blast

lemma nodes_ok_releaseGlobalSustain:
  assumes k: "keys_ok s" and n: "nodes_ok s"
  shows "nodes_ok (releaseGlobalSustain s)"
proof (cases "audioContext s")
  case None
  then show ?thesis using n by (simp add: releaseGlobalSustain_def)
next
  case ctx: (Some ctx)
  let ?s' = "releaseGlobalSustain s"
  let ?vs = "map snd (sustainedOscillators s)"
  have l: "look ?s' k = map_of (activeOscillators s) k" for k
    by (simp add: look_def releaseGlobalSustain_def ctx Let_def)
  have p: "next_node ?s' = next_node s" "masterGainNode ?s' = masterGainNode s"
    "timers ?s' = timers s @
       map (\<lambda>nd. \<lparr>delay_ms = 300, t_osc = oscillator nd, t_gain = gainNode nd\<rparr>) ?vs"
    "oscs ?s' = oscs (foldl (release_voice ctx) s ?vs)"
    "gains ?s' = gains (foldl (release_voice ctx) s ?vs)"
    by (simp_all add: releaseGlobalSustain_def ctx Let_def release_fold_timers)
  show ?thesis
  proof (rule nodes_ok_shrink[OF n])
    fix j v assume "look ?s' j = Some v"
    then have a: "map_of (activeOscillators s) j = Some v" by (simp add: l)
    then show lj: "look s j = Some v" by (rule keys_look)
    have "oscillator v \<noteq> oscillator w \<and> gainNode v \<noteq> gainNode w" if "w \<in> set ?vs" for w
    proof -
      from that obtain j' where "(j', w) \<in> set (sustainedOscillators s)" by auto
      from sustained_member[OF k this] a have "look s j' = Some w" "j' \<noteq> j" by auto
      with nodes_unique[OF n this(1) lj] show ?thesis by auto
    qed
    then have "oscillator v \<notin> oscillator ` set ?vs" "gainNode v \<notin> gainNode ` set ?vs"
      by blast+
    then show "oscs ?s' (oscillator v) = oscs s (oscillator v) \<and>
          gain_outputs (gains ?s' (gainNode v)) = gain_outputs (gains s (gainNode v))"
      by (simp add: p release_fold_other)
  next
    fix t assume "t \<in> set (timers ?s')"
    then consider "t \<in> set (timers s)"
      | j w where "(j, w) \<in> set (sustainedOscillators s)" "t_osc t = oscillator w"
          "t_gain t = gainNode w"
      by (auto simp: p)
    then show "t \<in> set (timers s) \<or>
               (\<exists>k v. look s k = Some v \<and> look ?s' k = None \<and>
                      t_osc t = oscillator v \<and> t_gain t = gainNode v)"
    proof cases
      case 1
      then show ?thesis ..
    next
      case 2
      from sustained_member[OF k 2(1)] 2(2,3) show ?thesis by (auto simp: l)
    qed
  qed (simp_all add: p)
qed

lemma enforceSilence_maps:
  "audioContext s \<noteq> None \<Longrightarrow> activeOscillators (enforceSilence f s) = []"
  "audioContext s \<noteq> None \<Longrightarrow> sustainedOscillators (enforceSilence f s) = []"
  "next_node (enforceSilence f s) = next_node s"
  "masterGainNode (enforceSilence f s) = masterGainNode s"
  "timers (enforceSilence f s) = timers s"
  "audioContext (enforceSilence f s) = audioContext s"
  by (auto simp: enforceSilence_def Let_def split: option.splits)

lemma nodes_ok_enforceSilence:
  assumes n: "nodes_ok s"
  shows "nodes_ok (enforceSilence f s)"
proof (cases "audioContext s")
  case None
  then show ?thesis using n by (simp add: enforceSilence_def)
next
  case (Some ctx)
  then have "look (enforceSilence f s) k = None" for k
    by (simp add: look_empty enforceSilence_maps)
  then show ?thesis
    by (intro nodes_ok_shrink[OF n]) (simp_all add: enforceSilence_maps)
qed

lemma inv_initial: "inv initial"
  by (simp add: inv_def backend_ok_def keys_ok_def nodes_ok_def look_def initial_def)

lemma inv_step:
  assumes "inv s"
  shows "inv (step s e)"
proof -
  from assms have b: "backend_ok s" and k: "keys_ok s" and n: "nodes_ok s"
    by (simp_all add: inv_def)
  have "nodes_ok (step s e)"
    by (cases e)
       (simp_all add: b k n nodes_ok_mount nodes_ok_setMasterVolume nodes_ok_playNote
          nodes_ok_stopNote nodes_ok_releaseGlobalSustain nodes_ok_enforceSilence
          nodes_ok_advance nodes_ok_fireTimer)
  with backend_ok_step[OF b, of e] keys_ok_step[OF b k, of e] show ?thesis
    by (simp add: inv_def)
qed

lemma run_snoc: "run (evs @ [e]) = step (run evs) e"
  by (simp add: run_def)

lemma inv_run: "inv (run evs)"
proof (induction evs rule: rev_induct)
  case Nil
  show ?case by (simp add: run_def inv_initial)
next
  case (snoc e evs)
  then show ?case by (simp add: run_snoc inv_step)
qed

lemmas run_eval = note_frequency_exact run_def mount_def setMasterVolume_def playNote_def stopNote_def
  releaseGlobalSustain_def release_voice_def enforceSilence_def silence_voice_def
  advance_def fireTimer_def dispose_def initial_def has_def new_gain_def new_osc_def
  node_defs Let_def

lemma inv_runD:
  "backend_ok (run evs)" "keys_ok (run evs)" "nodes_ok (run evs)"
  using inv_run[of evs] by (simp_all add: inv_def)

lemma keys_disjoint:
  "keys_ok s \<Longrightarrow> map_of (activeOscillators s) n = None \<or> map_of (sustainedOscillators s) n = None"
  by (simp add: keys_ok_def)

section \<open>The claims\<close>

text \<open>
  C1. In every state the hook can reach (any run of mount, note on and off, sustain release,
  forced silence, volume changes, passing time and firing timers, from the empty state),
  no note identifier is a key of both \<open>activeOscillators\<close> and \<open>sustainedOscillators\<close>.
\<close>

theorem maps_disjoint:
  "\<not> (has (activeOscillators (run evs)) n \<and> has (sustainedOscillators (run evs)) n)"
  using keys_disjoint[OF inv_runD(2), of evs n] by (auto simp: has_def)

theorem maps_disjoint_witness:
  "has (activeOscillators (run [Mount True, PlayNote 60 None, StopNote 60 True, PlayNote 60 None])) 60 \<and>
   \<not> has (sustainedOscillators (run [Mount True, PlayNote 60 None, StopNote 60 True, PlayNote 60 None])) 60"
proof -
  have a: "has (activeOscillators (run [Mount True, PlayNote 60 None, StopNote 60 True, PlayNote 60 None])) 60"
    by (simp add: run_eval)
  with maps_disjoint[of "[Mount True, PlayNote 60 None, StopNote 60 True, PlayNote 60 None]" 60]
  show ?thesis by simp
qed

subsection \<open>Note on\<close>

lemma playNote_registers:
  assumes "\<not> has (activeOscillators (playNote s n v)) n"
  shows "playNote s n w = s"
  using assms
  by (auto simp: playNote_def has_def Let_def node_defs update_conv'
        split: option.splits js_number.splits if_splits)

lemma playNote_active_same:
  assumes "keys_ok s" "has (activeOscillators s) n"
  shows "playNote s n v = s"
proof -
  from keys_disjoint[OF assms(1), of n] assms(2)
  have "map_of (sustainedOscillators s) n = None" by (auto simp: has_def)
  with assms(2) show ?thesis by (simp add: playNote_def split: option.splits)
qed

text \<open>
  C2. In a reachable state, \<open>playNote\<close> on a note that is already a key of
  \<open>activeOscillators\<close> returns the state unchanged, so no second voice is created; and two
  calls in a row for the same note leave exactly the state the first call left.
\<close>

theorem playNote_twice:
  "(has (activeOscillators (run evs)) n \<longrightarrow> playNote (run evs) n v = run evs) \<and>
   playNote (playNote (run evs) n v) n v' = playNote (run evs) n v"
proof
  show "has (activeOscillators (run evs)) n \<longrightarrow> playNote (run evs) n v = run evs"
    using playNote_active_same[OF inv_runD(2)] by blast
  have r: "playNote (run evs) n v = run (evs @ [PlayNote n v])" by (simp add: run_snoc)
  show "playNote (playNote (run evs) n v) n v' = playNote (run evs) n v"
  proof (cases "has (activeOscillators (playNote (run evs) n v)) n")
    case True
    then have "has (activeOscillators (run (evs @ [PlayNote n v]))) n" by (simp add: r)
    from playNote_active_same[OF inv_runD(2) this] show ?thesis by (simp add: r)
  next
    case False
    then have "playNote (run evs) n w = run evs" for w by (rule playNote_registers)
    then show ?thesis by simp
  qed
qed

theorem playNote_twice_witness:
  "has (activeOscillators (run [Mount True, PlayNote 60 (Some (1/2))])) 60 \<and>
   playNote (run [Mount True, PlayNote 60 (Some (1/2))]) 60 (Some (7/10)) =
     run [Mount True, PlayNote 60 (Some (1/2))] \<and>
   length (activeOscillators (playNote (run [Mount True, PlayNote 60 (Some (1/2))]) 60 (Some (7/10)))) = 1"
proof -
  have a: "has (activeOscillators (run [Mount True, PlayNote 60 (Some (1/2))])) 60"
    by (simp add: run_eval)
  have b: "length (activeOscillators (run [Mount True, PlayNote 60 (Some (1/2))])) = 1"
    by (simp add: run_eval)
  from playNote_twice[of "[Mount True, PlayNote 60 (Some (1/2))]" 60 "Some (7/10)"] a b
  show ?thesis by simp
qed

subsection \<open>Retrigger and note off\<close>

lemma backend_present:
  assumes "backend_ok s" "look s k = Some nd"
  shows "\<exists>ctx m. audioContext s = Some ctx \<and> masterGainNode s = Some m"
proof (cases "audioContext s")
  case None
  with assms(1) have "activeOscillators s = []" "sustainedOscillators s = []"
    by (simp_all add: backend_ok_def)
  with assms(2) show ?thesis by (simp add: look_def)
next
  case (Some ctx)
  with assms(1) show ?thesis by (auto simp: backend_ok_def)
qed

lemma look_iff:
  "keys_ok s \<Longrightarrow>
   look s k = Some nd \<longleftrightarrow>
     map_of (activeOscillators s) k = Some nd \<or> map_of (sustainedOscillators s) k = Some nd"
  using keys_disjoint[of s k] by (auto simp: look_def)

lemma voice_runningD:
  "nodes_ok s \<Longrightarrow> look s k = Some nd \<Longrightarrow> voice_running s nd"
  unfolding nodes_ok_def by blast

text \<open>
  C3. In a reachable state, \<open>playNote\<close> on a note registered in \<open>sustainedOscillators\<close>
  with voice \<open>nd\<close> removes the note from that map and registers the same voice (same
  oscillator and gain node) in \<open>activeOscillators\<close>. On the gain timeline it only cancels:
  what remains are the events scheduled before the current time, so the pending decay ramp
  is gone and no attack is added. No oscillator is touched, so the generator, which was
  started and has no stop scheduled, keeps running; no node is created and no timer is set.
\<close>

theorem playNote_retrigger:
  assumes "map_of (sustainedOscillators (run evs)) n = Some nd"
  shows "map_of (activeOscillators (playNote (run evs) n v)) n = Some nd \<and>
         \<not> has (sustainedOscillators (playNote (run evs) n v)) n \<and>
         gain_events (gains (playNote (run evs) n v) (gainNode nd)) =
           filter (\<lambda>e. ev_time e < now (run evs)) (gain_events (gains (run evs) (gainNode nd))) \<and>
         oscs (playNote (run evs) n v) = oscs (run evs) \<and>
         started (oscs (run evs) (oscillator nd)) \<and>
         stop_at (oscs (run evs) (oscillator nd)) = None \<and>
         next_node (playNote (run evs) n v) = next_node (run evs) \<and>
         timers (playNote (run evs) n v) = timers (run evs)"
proof -
  let ?s = "run evs"
  have l: "look ?s n = Some nd"
    using assms by (simp add: look_iff[OF inv_runD(2)])
  from backend_present[OF inv_runD(1) l] obtain ctx m
    where c: "audioContext ?s = Some ctx" "masterGainNode ?s = Some m" by blast
  have r: "started (oscs ?s (oscillator nd))" "stop_at (oscs ?s (oscillator nd)) = None"
    using voice_runningD[OF inv_runD(3) l] by (simp_all add: voice_running_def)
  have "map_of (activeOscillators (playNote ?s n v)) n = Some nd"
    "\<not> has (sustainedOscillators (playNote ?s n v)) n"
    "gain_events (gains (playNote ?s n v) (gainNode nd)) =
       filter (\<lambda>e. ev_time e < now ?s) (gain_events (gains ?s (gainNode nd)))"
    "oscs (playNote ?s n v) = oscs ?s"
    "next_node (playNote ?s n v) = next_node ?s"
    "timers (playNote ?s n v) = timers ?s"
    by (cases nd; simp add: playNote_def c assms now_def has_def Let_def node_defs
          update_conv' delete_conv')+
  with r show ?thesis by simp
qed

theorem playNote_retrigger_witness:
  "map_of (sustainedOscillators (run [Mount True, PlayNote 60 None, StopNote 60 True])) 60 =
     Some \<lparr>oscillator = 1, gainNode = 2\<rparr> \<and>
   map_of (activeOscillators
     (playNote (run [Mount True, PlayNote 60 None, StopNote 60 True]) 60 None)) 60 =
     Some \<lparr>oscillator = 1, gainNode = 2\<rparr> \<and>
   \<not> has (sustainedOscillators
     (playNote (run [Mount True, PlayNote 60 None, StopNote 60 True]) 60 None)) 60"
proof -
  have a: "map_of (sustainedOscillators (run [Mount True, PlayNote 60 None, StopNote 60 True])) 60 =
     Some \<lparr>oscillator = 1, gainNode = 2\<rparr>"
    by (simp add: run_eval)
  from playNote_retrigger[OF a, of None] a show ?thesis by simp
qed

text \<open>
  C4. In a reachable state, \<open>stopNote\<close> on a note registered in \<open>activeOscillators\<close> with
  voice \<open>nd\<close> removes it from that map. With the sustain flag it cancels the pending
  events, schedules a linear ramp to 0.4 times the value the gain reads, ending 0.8 s
  later, and registers the same voice in \<open>sustainedOscillators\<close>, leaving the oscillator and
  the timers alone. Without the flag it cancels, pins the value read, schedules an
  exponential ramp to 0.001 ending 0.15 s later, schedules the oscillator to stop at 0.2 s
  and a disconnect after 250 ms, and no key of either map holds the voice any more.
\<close>

theorem stopNote_routes:
  assumes "map_of (activeOscillators (run evs)) n = Some nd"
  shows "\<not> has (activeOscillators (stopNote (run evs) n True)) n \<and>
         map_of (sustainedOscillators (stopNote (run evs) n True)) n = Some nd \<and>
         gain_events (gains (stopNote (run evs) n True) (gainNode nd)) =
           filter (\<lambda>e. ev_time e < now (run evs)) (gain_events (gains (run evs) (gainNode nd))) @
           [LinearRampToValueAtTime (gain_value (gains (run evs) (gainNode nd)) * 0.4)
              (now (run evs) + 0.8)] \<and>
         oscs (stopNote (run evs) n True) = oscs (run evs) \<and>
         timers (stopNote (run evs) n True) = timers (run evs) \<and>
         \<not> has (activeOscillators (stopNote (run evs) n False)) n \<and>
         \<not> has (sustainedOscillators (stopNote (run evs) n False)) n \<and>
         (\<forall>k. map_of (activeOscillators (stopNote (run evs) n False)) k \<noteq> Some nd \<and>
              map_of (sustainedOscillators (stopNote (run evs) n False)) k \<noteq> Some nd) \<and>
         gain_events (gains (stopNote (run evs) n False) (gainNode nd)) =
           filter (\<lambda>e. ev_time e < now (run evs)) (gain_events (gains (run evs) (gainNode nd))) @
           [SetValueAtTime (gain_value (gains (run evs) (gainNode nd))) (now (run evs)),
            ExponentialRampToValueAtTime 0.001 (now (run evs) + 0.15)] \<and>
         stop_at (oscs (stopNote (run evs) n False) (oscillator nd)) = Some (now (run evs) + 0.2) \<and>
         timers (stopNote (run evs) n False) =
           timers (run evs) @ [\<lparr>delay_ms = 250, t_osc = oscillator nd, t_gain = gainNode nd\<rparr>]"
proof -
  let ?s = "run evs"
  have k: "keys_ok ?s" by (rule inv_runD)
  have l: "look ?s n = Some nd"
    using assms by (simp add: look_iff[OF k])
  from backend_present[OF inv_runD(1) l] obtain ctx m
    where c: "audioContext ?s = Some ctx" "masterGainNode ?s = Some m" by blast
  from keys_disjoint[OF k, of n] assms
  have su: "map_of (sustainedOscillators ?s) n = None" by simp
  have t: "\<not> has (activeOscillators (stopNote ?s n True)) n"
    "map_of (sustainedOscillators (stopNote ?s n True)) n = Some nd"
    "gain_events (gains (stopNote ?s n True) (gainNode nd)) =
       filter (\<lambda>e. ev_time e < now ?s) (gain_events (gains ?s (gainNode nd))) @
       [LinearRampToValueAtTime (gain_value (gains ?s (gainNode nd)) * 0.4) (now ?s + 0.8)]"
    "oscs (stopNote ?s n True) = oscs ?s"
    "timers (stopNote ?s n True) = timers ?s"
    by (cases nd; simp add: stopNote_def c assms now_def has_def Let_def node_defs
          update_conv' delete_conv')+
  have f: "\<not> has (activeOscillators (stopNote ?s n False)) n"
    "\<not> has (sustainedOscillators (stopNote ?s n False)) n"
    "gain_events (gains (stopNote ?s n False) (gainNode nd)) =
       filter (\<lambda>e. ev_time e < now ?s) (gain_events (gains ?s (gainNode nd))) @
       [SetValueAtTime (gain_value (gains ?s (gainNode nd))) (now ?s),
        ExponentialRampToValueAtTime 0.001 (now ?s + 0.15)]"
    "stop_at (oscs (stopNote ?s n False) (oscillator nd)) = Some (now ?s + 0.2)"
    "timers (stopNote ?s n False) =
       timers ?s @ [\<lparr>delay_ms = 250, t_osc = oscillator nd, t_gain = gainNode nd\<rparr>]"
    by (simp_all add: stopNote_def c assms su now_def has_def Let_def node_defs delete_conv')
  have g: "map_of (activeOscillators (stopNote ?s n False)) j \<noteq> Some nd \<and>
           map_of (sustainedOscillators (stopNote ?s n False)) j \<noteq> Some nd" for j
  proof (cases "j = n")
    case True
    with f(1,2) show ?thesis by (simp add: has_def)
  next
    case False
    have e: "map_of (activeOscillators (stopNote ?s n False)) j = map_of (activeOscillators ?s) j"
      "map_of (sustainedOscillators (stopNote ?s n False)) j = map_of (sustainedOscillators ?s) j"
      using False by (simp_all add: stopNote_def c assms Let_def node_defs delete_conv')
    have "look ?s j \<noteq> Some nd"
      using nodes_unique[OF inv_runD(3) _ l, of j nd] False by auto
    then show ?thesis by (simp add: e look_iff[OF k])
  qed
  from t f g show ?thesis by blast
qed

theorem stopNote_routes_witness:
  "map_of (activeOscillators (run [Mount True, PlayNote 60 None])) 60 =
     Some \<lparr>oscillator = 1, gainNode = 2\<rparr> \<and>
   map_of (sustainedOscillators (stopNote (run [Mount True, PlayNote 60 None]) 60 True)) 60 =
     Some \<lparr>oscillator = 1, gainNode = 2\<rparr> \<and>
   \<not> has (sustainedOscillators (stopNote (run [Mount True, PlayNote 60 None]) 60 False)) 60 \<and>
   timers (stopNote (run [Mount True, PlayNote 60 None]) 60 False) =
     [\<lparr>delay_ms = 250, t_osc = 1, t_gain = 2\<rparr>]"
proof -
  have a: "map_of (activeOscillators (run [Mount True, PlayNote 60 None])) 60 =
     Some \<lparr>oscillator = 1, gainNode = 2\<rparr>"
    by (simp add: run_eval)
  have b: "timers (run [Mount True, PlayNote 60 None]) = []"
    by (simp add: run_eval)
  from stopNote_routes[OF a] a b show ?thesis by simp
qed

subsection \<open>Forced silence and sustain release\<close>

lemma voices_distinct:
  assumes k: "keys_ok s" and n: "nodes_ok s"
  shows "distinct (map oscillator (map snd (activeOscillators s) @ map snd (sustainedOscillators s)))"
    and "distinct (map gainNode (map snd (activeOscillators s) @ map snd (sustainedOscillators s)))"
proof -
  let ?al = "activeOscillators s @ sustainedOscillators s"
  have m: "look s j = Some w" if "(j, w) \<in> set ?al" for j w
    using that active_member(3)[OF k] sustained_member(3)[OF k] by auto
  have d: "distinct ?al"
  proof -
    have "distinct (activeOscillators s)" "distinct (sustainedOscillators s)"
      using k by (auto simp: keys_ok_def distinct_map)
    moreover have "set (activeOscillators s) \<inter> set (sustainedOscillators s) = {}"
    proof (rule ccontr)
      assume "set (activeOscillators s) \<inter> set (sustainedOscillators s) \<noteq> {}"
      then obtain j w where "(j, w) \<in> set (activeOscillators s)" "(j, w) \<in> set (sustainedOscillators s)"
        by auto
      with active_member(2)[OF k this(1)] sustained_member(1)[OF k this(2)] show False by simp
    qed
    ultimately show ?thesis by simp
  qed
  have i1: "inj_on (oscillator \<circ> snd) (set ?al)"
  proof (rule inj_onI)
    fix x y assume h: "x \<in> set ?al" "y \<in> set ?al" "(oscillator \<circ> snd) x = (oscillator \<circ> snd) y"
    obtain j w where x: "x = (j, w)" by (cases x)
    obtain j' w' where y: "y = (j', w')" by (cases y)
    from h x y have l: "look s j = Some w" "look s j' = Some w'" "oscillator w = oscillator w'"
      using m by auto
    from nodes_unique[OF n l(1,2)] l(3) have "j = j'" by simp
    with l show "x = y" by (simp add: x y)
  qed
  have i2: "inj_on (gainNode \<circ> snd) (set ?al)"
  proof (rule inj_onI)
    fix x y assume h: "x \<in> set ?al" "y \<in> set ?al" "(gainNode \<circ> snd) x = (gainNode \<circ> snd) y"
    obtain j w where x: "x = (j, w)" by (cases x)
    obtain j' w' where y: "y = (j', w')" by (cases y)
    from h x y have l: "look s j = Some w" "look s j' = Some w'" "gainNode w = gainNode w'"
      using m by auto
    from nodes_unique[OF n l(1,2)] l(3) have "j = j'" by simp
    with l show "x = y" by (simp add: x y)
  qed
  have "distinct (map (oscillator \<circ> snd) ?al)"
    unfolding distinct_map using d i1 by (rule conjI)
  moreover have "distinct (map (gainNode \<circ> snd) ?al)"
    unfolding distinct_map using d i2 by (rule conjI)
  ultimately show "distinct (map oscillator (map snd (activeOscillators s) @ map snd (sustainedOscillators s)))"
    and "distinct (map gainNode (map snd (activeOscillators s) @ map snd (sustainedOscillators s)))"
    by simp_all
qed

lemma enforceSilence_fold:
  assumes "audioContext s = Some ctx"
  shows "oscs (enforceSilence f s) =
           oscs (foldl (silence_voice ctx f) s
             (map snd (activeOscillators s) @ map snd (sustainedOscillators s)))"
    and "gains (enforceSilence f s) =
           gains (foldl (silence_voice ctx f) s
             (map snd (activeOscillators s) @ map snd (sustainedOscillators s)))"
    and "warnings (enforceSilence f s) =
           warnings (foldl (silence_voice ctx f) s
             (map snd (activeOscillators s) @ map snd (sustainedOscillators s)))"
proof -
  have c: "foldl (silence_voice ctx f) (t\<lparr>activeOscillators := []\<rparr>) vs =
           (foldl (silence_voice ctx f) t vs)\<lparr>activeOscillators := []\<rparr>" for t vs
  proof (induction vs arbitrary: t)
    case Nil
    show ?case by simp
  next
    case (Cons x xs)
    have "silence_voice ctx f (t\<lparr>activeOscillators := []\<rparr>) x =
          (silence_voice ctx f t x)\<lparr>activeOscillators := []\<rparr>"
      by (simp add: silence_voice_def node_defs)
    then show ?case by (simp add: Cons.IH)
  qed
  show "oscs (enforceSilence f s) =
           oscs (foldl (silence_voice ctx f) s
             (map snd (activeOscillators s) @ map snd (sustainedOscillators s)))"
    and "gains (enforceSilence f s) =
           gains (foldl (silence_voice ctx f) s
             (map snd (activeOscillators s) @ map snd (sustainedOscillators s)))"
    and "warnings (enforceSilence f s) =
           warnings (foldl (silence_voice ctx f) s
             (map snd (activeOscillators s) @ map snd (sustainedOscillators s)))"
    by (simp_all add: enforceSilence_def assms Let_def c)
qed

text \<open>
  C5. In a reachable state, with any number of voices in the two maps and whichever backend
  calls throw, \<open>enforceSilence\<close> returns with both maps empty. The sweep does not stop at a
  throwing voice: it logs one warning for each voice whose teardown throws, and every
  registered voice whose own teardown does not throw is torn down in full (pending events
  cancelled, gain set to 0 at the current time, oscillator stopped at once, both nodes
  disconnected), whatever happened to the voices before it.
\<close>

theorem enforceSilence_best_effort:
  "activeOscillators (enforceSilence faults (run evs)) = [] \<and>
   sustainedOscillators (enforceSilence faults (run evs)) = [] \<and>
   warnings (enforceSilence faults (run evs)) =
     warnings (run evs) +
     length (filter (\<lambda>nd. faults nd \<noteq> None)
       (map snd (activeOscillators (run evs)) @ map snd (sustainedOscillators (run evs)))) \<and>
   (\<forall>k nd.
      (map_of (activeOscillators (run evs)) k = Some nd \<or>
       map_of (sustainedOscillators (run evs)) k = Some nd) \<and> faults nd = None \<longrightarrow>
      gain_events (gains (enforceSilence faults (run evs)) (gainNode nd)) =
        filter (\<lambda>e. ev_time e < now (run evs)) (gain_events (gains (run evs) (gainNode nd))) @
        [SetValueAtTime 0 (now (run evs))] \<and>
      gain_outputs (gains (enforceSilence faults (run evs)) (gainNode nd)) = [] \<and>
      stop_at (oscs (enforceSilence faults (run evs)) (oscillator nd)) = Some 0 \<and>
      osc_outputs (oscs (enforceSilence faults (run evs)) (oscillator nd)) = [])"
proof (cases "audioContext (run evs)")
  case None
  with inv_runD(1)[of evs]
  have "activeOscillators (run evs) = []" "sustainedOscillators (run evs) = []"
    by (simp_all add: backend_ok_def)
  with None show ?thesis by (simp add: enforceSilence_def)
next
  case ctx: (Some ctx)
  let ?s = "run evs"
  let ?vs = "map snd (activeOscillators ?s) @ map snd (sustainedOscillators ?s)"
  have t: "now ?s = currentTime ctx" by (simp add: now_def ctx)
  note d = voices_distinct[OF inv_runD(2) inv_runD(3), of evs]
  have own: "gain_events (gains (enforceSilence faults ?s) (gainNode nd)) =
        filter (\<lambda>e. ev_time e < now ?s) (gain_events (gains ?s (gainNode nd))) @
        [SetValueAtTime 0 (now ?s)] \<and>
      gain_outputs (gains (enforceSilence faults ?s) (gainNode nd)) = [] \<and>
      stop_at (oscs (enforceSilence faults ?s) (oscillator nd)) = Some 0 \<and>
      osc_outputs (oscs (enforceSilence faults ?s) (oscillator nd)) = []"
    if h: "map_of (activeOscillators ?s) k = Some nd \<or> map_of (sustainedOscillators ?s) k = Some nd"
      and ok: "faults nd = None" for k nd
  proof -
    from h have "nd \<in> set ?vs" by (auto dest!: map_of_SomeD intro: rev_image_eqI)
    from silence_fold_own[of nd ?vs faults ctx ?s, OF this d ok] show ?thesis
      by (simp add: enforceSilence_fold[OF ctx] t)
  qed
  have "activeOscillators (enforceSilence faults ?s) = []"
    "sustainedOscillators (enforceSilence faults ?s) = []"
    by (simp_all add: enforceSilence_maps ctx)
  moreover have "warnings (enforceSilence faults ?s) =
     warnings ?s + length (filter (\<lambda>nd. faults nd \<noteq> None) ?vs)"
    by (simp only: enforceSilence_fold(3)[OF ctx] silence_fold_warnings)
  ultimately show ?thesis using own by blast
qed

theorem enforceSilence_best_effort_witness:
  "map_of (sustainedOscillators
     (run [Mount True, PlayNote 60 None, PlayNote 62 None, StopNote 62 True])) 62 =
     Some \<lparr>oscillator = 3, gainNode = 4\<rparr> \<and>
   stop_fails_on 1 \<lparr>oscillator = 1, gainNode = 2\<rparr> = Some Stop \<and>
   activeOscillators (enforceSilence (stop_fails_on 1)
     (run [Mount True, PlayNote 60 None, PlayNote 62 None, StopNote 62 True])) = [] \<and>
   sustainedOscillators (enforceSilence (stop_fails_on 1)
     (run [Mount True, PlayNote 60 None, PlayNote 62 None, StopNote 62 True])) = [] \<and>
   gain_outputs (gains (enforceSilence (stop_fails_on 1)
     (run [Mount True, PlayNote 60 None, PlayNote 62 None, StopNote 62 True])) 4) = [] \<and>
   stop_at (oscs (enforceSilence (stop_fails_on 1)
     (run [Mount True, PlayNote 60 None, PlayNote 62 None, StopNote 62 True])) 3) = Some 0"
proof -
  let ?W = "[Mount True, PlayNote 60 None, PlayNote 62 None, StopNote 62 True]"
  have a: "map_of (sustainedOscillators (run ?W)) 62 = Some \<lparr>oscillator = 3, gainNode = 4\<rparr>"
    by (simp add: run_eval)
  have b: "stop_fails_on 1 \<lparr>oscillator = 3, gainNode = 4\<rparr> = None"
    "stop_fails_on 1 \<lparr>oscillator = 1, gainNode = 2\<rparr> = Some Stop"
    by (simp_all add: stop_fails_on_def)
  note t = enforceSilence_best_effort[of "stop_fails_on 1" ?W]
  from t have e: "activeOscillators (enforceSilence (stop_fails_on 1) (run ?W)) = []"
    "sustainedOscillators (enforceSilence (stop_fails_on 1) (run ?W)) = []" by simp_all
  from t[THEN conjunct2, THEN conjunct2, THEN conjunct2, rule_format,
      of 62 "\<lparr>oscillator = 3, gainNode = 4\<rparr>"] a b
  have "gain_outputs (gains (enforceSilence (stop_fails_on 1) (run ?W)) 4) = []"
    "stop_at (oscs (enforceSilence (stop_fails_on 1) (run ?W)) 3) = Some 0" by simp_all
  with a b e show ?thesis by simp
qed

text \<open>
  C7 as stated does not hold: a note that is sustaining is no longer a key of
  \<open>sustainedOscillators\<close> when \<open>releaseGlobalSustain\<close> returns, before any time has passed.
\<close>

theorem releaseGlobalSustain_removes_at_once:
  "has (sustainedOscillators (run [Mount True, PlayNote 60 None, StopNote 60 True])) 60 \<and>
   \<not> has (sustainedOscillators
     (releaseGlobalSustain (run [Mount True, PlayNote 60 None, StopNote 60 True]))) 60 \<and>
   now (releaseGlobalSustain (run [Mount True, PlayNote 60 None, StopNote 60 True])) =
     now (run [Mount True, PlayNote 60 None, StopNote 60 True])"
  by (simp add: run_eval now_def)

lemma env_step_keeps_maps:
  "env_event e \<Longrightarrow>
   activeOscillators (step s e) = activeOscillators s \<and>
   sustainedOscillators (step s e) = sustainedOscillators s"
  by (cases e) (simp_all add: advance_def fireTimer_def dispose_def node_defs)

lemma env_events_keep_maps:
  "list_all env_event es \<Longrightarrow>
   activeOscillators (foldl step s es) = activeOscillators s \<and>
   sustainedOscillators (foldl step s es) = sustainedOscillators s"
  by (induction es arbitrary: s) (simp_all add: env_step_keeps_maps)

lemma releaseGlobalSustain_effect:
  "sustainedOscillators (releaseGlobalSustain (run evs)) = [] \<and>
   activeOscillators (releaseGlobalSustain (run evs)) = activeOscillators (run evs) \<and>
   (\<forall>k nd. map_of (sustainedOscillators (run evs)) k = Some nd \<longrightarrow>
      \<not> has (activeOscillators (releaseGlobalSustain (run evs))) k \<and>
      gain_events (gains (releaseGlobalSustain (run evs)) (gainNode nd)) =
        filter (\<lambda>e. ev_time e < now (run evs)) (gain_events (gains (run evs) (gainNode nd))) @
        [SetValueAtTime (gain_value (gains (run evs) (gainNode nd))) (now (run evs)),
         ExponentialRampToValueAtTime 0.001 (now (run evs) + 0.2)] \<and>
      stop_at (oscs (releaseGlobalSustain (run evs)) (oscillator nd)) = Some (now (run evs) + 0.25) \<and>
      osc_outputs (oscs (releaseGlobalSustain (run evs)) (oscillator nd)) = [Node (gainNode nd)] \<and>
      \<lparr>delay_ms = 300, t_osc = oscillator nd, t_gain = gainNode nd\<rparr>
        \<in> set (timers (releaseGlobalSustain (run evs))))"
proof (cases "audioContext (run evs)")
  case None
  with inv_runD(1)[of evs]
  have "activeOscillators (run evs) = []" "sustainedOscillators (run evs) = []"
    by (simp_all add: backend_ok_def)
  with None show ?thesis by (simp add: releaseGlobalSustain_def)
next
  case ctx: (Some ctx)
  let ?s = "run evs"
  let ?s' = "releaseGlobalSustain ?s"
  let ?vs = "map snd (sustainedOscillators ?s)"
  have t: "now ?s = currentTime ctx" by (simp add: now_def ctx)
  have k: "keys_ok ?s" by (rule inv_runD)
  from voices_distinct[OF k inv_runD(3)]
  have d: "distinct (map oscillator ?vs)" "distinct (map gainNode ?vs)" by simp_all
  have p: "sustainedOscillators ?s' = []" "activeOscillators ?s' = activeOscillators ?s"
    "oscs ?s' = oscs (foldl (release_voice ctx) ?s ?vs)"
    "gains ?s' = gains (foldl (release_voice ctx) ?s ?vs)"
    "timers ?s' = timers ?s @
       map (\<lambda>nd. \<lparr>delay_ms = 300, t_osc = oscillator nd, t_gain = gainNode nd\<rparr>) ?vs"
    by (simp_all add: releaseGlobalSustain_def ctx Let_def release_fold_timers)
  have own: "\<not> has (activeOscillators ?s') j \<and>
      gain_events (gains ?s' (gainNode nd)) =
        filter (\<lambda>e. ev_time e < now ?s) (gain_events (gains ?s (gainNode nd))) @
        [SetValueAtTime (gain_value (gains ?s (gainNode nd))) (now ?s),
         ExponentialRampToValueAtTime 0.001 (now ?s + 0.2)] \<and>
      stop_at (oscs ?s' (oscillator nd)) = Some (now ?s + 0.25) \<and>
      osc_outputs (oscs ?s' (oscillator nd)) = [Node (gainNode nd)] \<and>
      \<lparr>delay_ms = 300, t_osc = oscillator nd, t_gain = gainNode nd\<rparr> \<in> set (timers ?s')"
    if h: "map_of (sustainedOscillators ?s) j = Some nd" for j nd
  proof -
    from h have m: "nd \<in> set ?vs" by (auto dest!: map_of_SomeD intro: rev_image_eqI)
    from keys_disjoint[OF k, of j] h have a: "\<not> has (activeOscillators ?s') j"
      by (simp add: p has_def)
    from h have "look ?s j = Some nd" by (simp add: look_iff[OF k])
    from voice_runningD[OF inv_runD(3) this]
    have o: "osc_outputs (oscs ?s (oscillator nd)) = [Node (gainNode nd)]"
      by (simp add: voice_running_def)
    from m have tm: "\<lparr>delay_ms = 300, t_osc = oscillator nd, t_gain = gainNode nd\<rparr> \<in> set (timers ?s')"
      unfolding p by auto
    from release_fold_own[OF m d, of ctx ?s] a o tm show ?thesis by (simp add: p t)
  qed
  from p(1,2) own show ?thesis by blast
qed

text \<open>
  C7, amended. In a reachable state \<open>releaseGlobalSustain\<close> empties \<open>sustainedOscillators\<close>
  at once and leaves \<open>activeOscillators\<close> as it was, so a note that was sustaining is a key
  of neither map as soon as the call returns, before any of the release time has passed.
  It is a key of neither map afterwards as well, however much time passes and whichever
  timers fire, so also once the release time has passed. Only the sound is deferred: for
  each voice that was sustaining the pending events are cancelled, the value read is
  pinned, an exponential ramp to 0.001 ends 0.2 s later, the oscillator is scheduled to
  stop at 0.25 s and is still connected, and a timer for the disconnect after 300 ms is
  pending.
\<close>

theorem releaseGlobalSustain_eager:
  "sustainedOscillators (releaseGlobalSustain (run evs)) = [] \<and>
   activeOscillators (releaseGlobalSustain (run evs)) = activeOscillators (run evs) \<and>
   (\<forall>k nd. map_of (sustainedOscillators (run evs)) k = Some nd \<longrightarrow>
      \<not> has (activeOscillators (releaseGlobalSustain (run evs))) k \<and>
      gain_events (gains (releaseGlobalSustain (run evs)) (gainNode nd)) =
        filter (\<lambda>e. ev_time e < now (run evs)) (gain_events (gains (run evs) (gainNode nd))) @
        [SetValueAtTime (gain_value (gains (run evs) (gainNode nd))) (now (run evs)),
         ExponentialRampToValueAtTime 0.001 (now (run evs) + 0.2)] \<and>
      stop_at (oscs (releaseGlobalSustain (run evs)) (oscillator nd)) = Some (now (run evs) + 0.25) \<and>
      osc_outputs (oscs (releaseGlobalSustain (run evs)) (oscillator nd)) = [Node (gainNode nd)] \<and>
      \<lparr>delay_ms = 300, t_osc = oscillator nd, t_gain = gainNode nd\<rparr>
        \<in> set (timers (releaseGlobalSustain (run evs)))) \<and>
   (\<forall>es k nd. list_all env_event es \<and> map_of (sustainedOscillators (run evs)) k = Some nd \<longrightarrow>
      \<not> has (activeOscillators (foldl step (releaseGlobalSustain (run evs)) es)) k \<and>
      \<not> has (sustainedOscillators (foldl step (releaseGlobalSustain (run evs)) es)) k)"
proof -
  note e = releaseGlobalSustain_effect[of evs]
  have "\<not> has (activeOscillators (foldl step (releaseGlobalSustain (run evs)) es)) k \<and>
        \<not> has (sustainedOscillators (foldl step (releaseGlobalSustain (run evs)) es)) k"
    if h: "list_all env_event es" "map_of (sustainedOscillators (run evs)) k = Some nd"
    for es k nd
  proof -
    from e[THEN conjunct2, THEN conjunct2, rule_format, OF h(2)]
    have "\<not> has (activeOscillators (releaseGlobalSustain (run evs))) k" by simp
    moreover from e have "\<not> has (sustainedOscillators (releaseGlobalSustain (run evs))) k"
      by (simp add: has_def)
    ultimately have "\<not> has (activeOscillators (releaseGlobalSustain (run evs))) k"
      "\<not> has (sustainedOscillators (releaseGlobalSustain (run evs))) k" by simp_all
    with env_events_keep_maps[OF h(1), of "releaseGlobalSustain (run evs)"] show ?thesis
      by simp
  qed
  with e show ?thesis by blast
qed

theorem releaseGlobalSustain_eager_witness:
  "map_of (sustainedOscillators (run [Mount True, PlayNote 60 None, StopNote 60 True])) 60 =
     Some \<lparr>oscillator = 1, gainNode = 2\<rparr> \<and>
   sustainedOscillators (releaseGlobalSustain (run [Mount True, PlayNote 60 None, StopNote 60 True])) = [] \<and>
   stop_at (oscs (releaseGlobalSustain (run [Mount True, PlayNote 60 None, StopNote 60 True])) 1) =
     Some (1/4) \<and>
   osc_outputs (oscs (releaseGlobalSustain (run [Mount True, PlayNote 60 None, StopNote 60 True])) 1) =
     [Node 2] \<and>
   list_all env_event [Advance (3/10) (steady 0), FireTimer 0] \<and>
   now (foldl step (releaseGlobalSustain (run [Mount True, PlayNote 60 None, StopNote 60 True]))
     [Advance (3/10) (steady 0), FireTimer 0]) = 3/10 \<and>
   \<not> has (activeOscillators
     (foldl step (releaseGlobalSustain (run [Mount True, PlayNote 60 None, StopNote 60 True]))
       [Advance (3/10) (steady 0), FireTimer 0])) 60 \<and>
   \<not> has (sustainedOscillators
     (foldl step (releaseGlobalSustain (run [Mount True, PlayNote 60 None, StopNote 60 True]))
       [Advance (3/10) (steady 0), FireTimer 0])) 60"
proof -
  let ?W = "[Mount True, PlayNote 60 None, StopNote 60 True]"
  let ?E = "[Advance (3/10) (steady 0), FireTimer 0]"
  have a: "map_of (sustainedOscillators (run ?W)) 60 = Some \<lparr>oscillator = 1, gainNode = 2\<rparr>"
    by (simp add: run_eval)
  have b: "now (run ?W) = 0" by (simp add: run_eval now_def)
  have c: "list_all env_event ?E" by simp
  have d: "now (foldl step (releaseGlobalSustain (run ?W)) ?E) = 3/10"
    by (simp add: run_eval now_def)
  note t = releaseGlobalSustain_eager[of ?W]
  from t have e: "sustainedOscillators (releaseGlobalSustain (run ?W)) = []" by simp
  from t[THEN conjunct2, THEN conjunct2, THEN conjunct1, rule_format, OF a] b
  have f: "stop_at (oscs (releaseGlobalSustain (run ?W)) 1) = Some (1/4)"
    "osc_outputs (oscs (releaseGlobalSustain (run ?W)) 1) = [Node 2]" by simp_all
  from t[THEN conjunct2, THEN conjunct2, THEN conjunct2, rule_format, OF conjI, OF c a]
  have g: "\<not> has (activeOscillators (foldl step (releaseGlobalSustain (run ?W)) ?E)) 60"
    "\<not> has (sustainedOscillators (foldl step (releaseGlobalSustain (run ?W)) ?E)) 60"
    by simp_all
  from a c d e f g show ?thesis by simp
qed

subsection \<open>Master volume\<close>

text \<open>
  C6 as stated does not hold: the argument is divided by 10 before it is clamped, so the
  in-range volume 1 sets the master gain to 0.1 and not to 1.
\<close>

theorem setMasterVolume_scales_first:
  "masterGainNode (run [Mount True]) = Some 0 \<and>
   gain_events (gains (setMasterVolume (run [Mount True]) 1) 0) = [SetValueAtTime (1/10) 0] \<and>
   gain_events (gains (setMasterVolume (run [Mount True]) 1) 0) \<noteq> [SetValueAtTime 1 0]"
  by (simp add: run_eval)

text \<open>
  C6, amended. In a reachable state with a master gain node, \<open>setMasterVolume v\<close> appends to
  the master gain timeline one value set at the current time, with no ramp: \<open>v / 10\<close>
  clamped to the interval from 0 to 1, which is \<open>v / 10\<close> itself for \<open>v\<close> from 0 to 10. The
  volume -5 behaves as 0 and the volume 50 as 10, the maximum. The two maps, the
  oscillators, the timers and every other gain node, so the gain node of every registered
  voice, are unchanged.
\<close>

theorem setMasterVolume_clamps_tenth:
  assumes "masterGainNode (run evs) = Some m"
  shows "gain_events (gains (setMasterVolume (run evs) v) m) =
           gain_events (gains (run evs) m) @
           [SetValueAtTime (min 1 (max 0 (v / 10))) (now (run evs))] \<and>
         (0 \<le> v \<and> v \<le> 10 \<longrightarrow> min 1 (max 0 (v / 10)) = v / 10) \<and>
         setMasterVolume (run evs) (-5) = setMasterVolume (run evs) 0 \<and>
         setMasterVolume (run evs) 50 = setMasterVolume (run evs) 10 \<and>
         activeOscillators (setMasterVolume (run evs) v) = activeOscillators (run evs) \<and>
         sustainedOscillators (setMasterVolume (run evs) v) = sustainedOscillators (run evs) \<and>
         oscs (setMasterVolume (run evs) v) = oscs (run evs) \<and>
         timers (setMasterVolume (run evs) v) = timers (run evs) \<and>
         (\<forall>g. g \<noteq> m \<longrightarrow> gains (setMasterVolume (run evs) v) g = gains (run evs) g) \<and>
         (\<forall>k nd. map_of (activeOscillators (run evs)) k = Some nd \<or>
                 map_of (sustainedOscillators (run evs)) k = Some nd \<longrightarrow>
                 gains (setMasterVolume (run evs) v) (gainNode nd) = gains (run evs) (gainNode nd))"
proof -
  let ?s = "run evs"
  from inv_runD(1)[of evs] assms obtain ctx where c: "audioContext ?s = Some ctx"
    by (auto simp: backend_ok_def)
  have p: "gain_events (gains (setMasterVolume ?s v) m) =
           gain_events (gains ?s m) @ [SetValueAtTime (min 1 (max 0 (v / 10))) (now ?s)]"
    "setMasterVolume ?s (-5) = setMasterVolume ?s 0"
    "setMasterVolume ?s 50 = setMasterVolume ?s 10"
    "activeOscillators (setMasterVolume ?s v) = activeOscillators ?s"
    "sustainedOscillators (setMasterVolume ?s v) = sustainedOscillators ?s"
    "oscs (setMasterVolume ?s v) = oscs ?s"
    "timers (setMasterVolume ?s v) = timers ?s"
    by (simp_all add: setMasterVolume_def assms c now_def node_defs Let_def)
  have o: "g \<noteq> m \<Longrightarrow> gains (setMasterVolume ?s v) g = gains ?s g" for g
    by (simp add: setMasterVolume_def assms c node_defs Let_def)
  have q: "gains (setMasterVolume ?s v) (gainNode nd) = gains ?s (gainNode nd)"
    if "map_of (activeOscillators ?s) k = Some nd \<or> map_of (sustainedOscillators ?s) k = Some nd"
    for k nd
  proof -
    from that have "look ?s k = Some nd" by (simp add: look_iff[OF inv_runD(2)])
    from voice_runningD[OF inv_runD(3) this] assms have "gainNode nd \<noteq> m"
      by (auto simp: voice_running_def)
    then show ?thesis by (rule o)
  qed
  have r: "0 \<le> v \<and> v \<le> 10 \<longrightarrow> min 1 (max 0 (v / 10)) = v / 10" by auto
  from p o q r show ?thesis by blast
qed

theorem setMasterVolume_clamps_tenth_witness:
  "masterGainNode (run [Mount True, PlayNote 60 None]) = Some 0 \<and>
   gain_events (gains (setMasterVolume (run [Mount True, PlayNote 60 None]) 7) 0) =
     [SetValueAtTime (7/10) 0] \<and>
   setMasterVolume (run [Mount True, PlayNote 60 None]) 50 =
     setMasterVolume (run [Mount True, PlayNote 60 None]) 10"
proof -
  let ?W = "[Mount True, PlayNote 60 None]"
  have a: "masterGainNode (run ?W) = Some 0" by (simp add: run_eval)
  have b: "gain_events (gains (run ?W) 0) = []" "now (run ?W) = 0" by (simp_all add: run_eval now_def)
  from setMasterVolume_clamps_tenth[OF a, of 7] a b show ?thesis by simp
qed

subsection \<open>Cancel and pin before a ramp\<close>

text \<open>
  C8. Every path that schedules a ramp should first cancel the pending events and pin the
  current value. The sustain branch of \<open>stopNote\<close> cancels but does not pin: for a note
  played at time 0 and released with sustain at time 1, while the gain reads 0.5, the
  timeline ends with the attack ramp followed by the decay ramp, with no value set at
  time 1. The release branch, at the same input, does pin 0.5 at time 1.
\<close>

theorem sustain_decay_not_pinned:
  "gain_events (gains (run [Mount True, PlayNote 60 (Some (1/2)), Advance 1 (steady (1/2)),
      StopNote 60 True]) 2) =
     [SetValueAtTime 0 0, LinearRampToValueAtTime (1/2) (3/200),
      LinearRampToValueAtTime (1/5) (9/5)] \<and>
   \<not> pinned_before_ramp 1 (1/2)
     (gain_events (gains (run [Mount True, PlayNote 60 (Some (1/2)), Advance 1 (steady (1/2)),
        StopNote 60 True]) 2)) \<and>
   gain_events (gains (run [Mount True, PlayNote 60 (Some (1/2)), Advance 1 (steady (1/2)),
      StopNote 60 False]) 2) =
     [SetValueAtTime 0 0, LinearRampToValueAtTime (1/2) (3/200),
      SetValueAtTime (1/2) 1, ExponentialRampToValueAtTime (1/1000) (23/20)] \<and>
   pinned_before_ramp 1 (1/2)
     (gain_events (gains (run [Mount True, PlayNote 60 (Some (1/2)), Advance 1 (steady (1/2)),
        StopNote 60 False]) 2))"
  by (simp add: run_eval pinned_before_ramp_def steady_def)

text \<open>
  The same holds at every input: a timeline as the release paths leave it is pinned, one as
  the sustain branch leaves it never is, and the attack pins 0 on the new gain node.
\<close>

lemma release_branch_pinned:
  "pinned_before_ramp t cur
     (filter (\<lambda>e. ev_time e < t) evs @ [SetValueAtTime cur t, ExponentialRampToValueAtTime v t'])"
  by (simp add: pinned_before_ramp_def list_all_iff)

lemma sustain_branch_unpinned:
  "\<not> pinned_before_ramp t cur (filter (\<lambda>e. ev_time e < t) evs @ [LinearRampToValueAtTime v t'])"
proof (cases "rev (filter (\<lambda>e. ev_time e < t) evs)")
  case Nil
  then show ?thesis by (simp add: pinned_before_ramp_def)
next
  case (Cons a as)
  then have "a \<in> set (filter (\<lambda>e. ev_time e < t) evs)"
    by (metis list.set_intros(1) set_rev)
  then have "ev_time a < t" by simp
  with Cons show ?thesis
    by (cases a) (auto simp: pinned_before_ramp_def)
qed

lemma attack_schedule:
  assumes "audioContext s = Some ctx" "masterGainNode s = Some master"
    "\<not> has (activeOscillators s) n" "\<not> has (sustainedOscillators s) n"
    "note_frequency n = Finite f"
  shows "gain_events (gains (playNote s n (Some vol)) (Suc (next_node s))) =
           [SetValueAtTime 0 (currentTime ctx), LinearRampToValueAtTime vol (currentTime ctx + 0.015)]"
  using assms
  by (simp add: playNote_def has_def Let_def node_defs new_gain_def)

subsection \<open>Deferred disposal\<close>

text \<open>
  C9 as stated does not hold: nothing detects a retrigger. After note 60 is played,
  released without sustain and played again, the timer of the first voice is still
  pending, and when it fires it disconnects the nodes it captured, unconditionally.
\<close>

theorem retrigger_does_not_suppress_disposal:
  "has (activeOscillators
     (run [Mount True, PlayNote 60 None, StopNote 60 False, PlayNote 60 None])) 60 \<and>
   timers (run [Mount True, PlayNote 60 None, StopNote 60 False, PlayNote 60 None]) =
     [\<lparr>delay_ms = 250, t_osc = 1, t_gain = 2\<rparr>] \<and>
   gain_outputs (gains
     (run [Mount True, PlayNote 60 None, StopNote 60 False, PlayNote 60 None]) 2) = [Node 0] \<and>
   gain_outputs (gains
     (run [Mount True, PlayNote 60 None, StopNote 60 False, PlayNote 60 None, FireTimer 0]) 2) = [] \<and>
   osc_outputs (oscs
     (run [Mount True, PlayNote 60 None, StopNote 60 False, PlayNote 60 None, FireTimer 0]) 1) = []"
  by (simp add: run_eval)

text \<open>
  C9, amended. A timer is never cancelled and its callback checks nothing: when the timer
  at position \<open>i\<close> fires it leaves the queue and disconnects the two nodes it captured. It
  is safe all the same: in a reachable state no pending timer holds a node of a voice
  registered in either map, so firing any timer leaves the oscillator and the gain node of
  every registered voice as they were; and every registered voice has its oscillator
  started, with no stop scheduled, and both nodes connected.
\<close>

theorem timers_spare_registered_voices:
  assumes "map_of (activeOscillators (run evs)) k = Some nd \<or>
           map_of (sustainedOscillators (run evs)) k = Some nd"
  shows "(\<forall>t \<in> set (timers (run evs)). t_osc t \<noteq> oscillator nd \<and> t_gain t \<noteq> gainNode nd) \<and>
         oscs (fireTimer i (run evs)) (oscillator nd) = oscs (run evs) (oscillator nd) \<and>
         gains (fireTimer i (run evs)) (gainNode nd) = gains (run evs) (gainNode nd) \<and>
         started (oscs (run evs) (oscillator nd)) \<and>
         stop_at (oscs (run evs) (oscillator nd)) = None \<and>
         osc_outputs (oscs (run evs) (oscillator nd)) = [Node (gainNode nd)] \<and>
         gain_outputs (gains (run evs) (gainNode nd)) \<noteq> [] \<and>
         (i < length (timers (run evs)) \<longrightarrow>
            osc_outputs (oscs (fireTimer i (run evs)) (t_osc (timers (run evs) ! i))) = [] \<and>
            gain_outputs (gains (fireTimer i (run evs)) (t_gain (timers (run evs) ! i))) = [] \<and>
            length (timers (fireTimer i (run evs))) = length (timers (run evs)) - 1)"
proof -
  let ?s = "run evs"
  have l: "look ?s k = Some nd" using assms by (simp add: look_iff[OF inv_runD(2)])
  have d: "\<forall>t \<in> set (timers ?s). t_osc t \<noteq> oscillator nd \<and> t_gain t \<noteq> gainNode nd"
    using inv_runD(3)[of evs] l unfolding nodes_ok_def by blast
  have r: "started (oscs ?s (oscillator nd))" "stop_at (oscs ?s (oscillator nd)) = None"
    "osc_outputs (oscs ?s (oscillator nd)) = [Node (gainNode nd)]"
    "gain_outputs (gains ?s (gainNode nd)) \<noteq> []"
    using voice_runningD[OF inv_runD(3) l] by (auto simp: voice_running_def)
  have f: "oscs (fireTimer i ?s) (oscillator nd) = oscs ?s (oscillator nd) \<and>
           gains (fireTimer i ?s) (gainNode nd) = gains ?s (gainNode nd)"
  proof (cases "i < length (timers ?s)")
    case False
    then show ?thesis by (simp add: fireTimer_def)
  next
    case True
    then have "timers ?s ! i \<in> set (timers ?s)" by simp
    with d have "t_osc (timers ?s ! i) \<noteq> oscillator nd" "t_gain (timers ?s ! i) \<noteq> gainNode nd"
      by blast+
    with True show ?thesis by (simp add: fireTimer_def dispose_def node_defs)
  qed
  have g: "i < length (timers ?s) \<longrightarrow>
            osc_outputs (oscs (fireTimer i ?s) (t_osc (timers ?s ! i))) = [] \<and>
            gain_outputs (gains (fireTimer i ?s) (t_gain (timers ?s ! i))) = [] \<and>
            length (timers (fireTimer i ?s)) = length (timers ?s) - 1"
    by (auto simp: fireTimer_def dispose_def node_defs)
  from d r f g show ?thesis by blast
qed

theorem timers_spare_registered_voices_witness:
  "map_of (activeOscillators
     (run [Mount True, PlayNote 60 None, StopNote 60 False, PlayNote 60 None])) 60 =
     Some \<lparr>oscillator = 3, gainNode = 4\<rparr> \<and>
   timers (run [Mount True, PlayNote 60 None, StopNote 60 False, PlayNote 60 None]) =
     [\<lparr>delay_ms = 250, t_osc = 1, t_gain = 2\<rparr>] \<and>
   oscs (fireTimer 0 (run [Mount True, PlayNote 60 None, StopNote 60 False, PlayNote 60 None])) 3 =
     oscs (run [Mount True, PlayNote 60 None, StopNote 60 False, PlayNote 60 None]) 3 \<and>
   gains (fireTimer 0 (run [Mount True, PlayNote 60 None, StopNote 60 False, PlayNote 60 None])) 4 =
     gains (run [Mount True, PlayNote 60 None, StopNote 60 False, PlayNote 60 None]) 4 \<and>
   osc_outputs (oscs
     (fireTimer 0 (run [Mount True, PlayNote 60 None, StopNote 60 False, PlayNote 60 None])) 1) = []"
proof -
  let ?W = "[Mount True, PlayNote 60 None, StopNote 60 False, PlayNote 60 None]"
  have a: "map_of (activeOscillators (run ?W)) 60 = Some \<lparr>oscillator = 3, gainNode = 4\<rparr>"
    by (simp add: run_eval)
  have b: "timers (run ?W) = [\<lparr>delay_ms = 250, t_osc = 1, t_gain = 2\<rparr>]"
    by (simp add: run_eval)
  from timers_spare_registered_voices[OF disjI1, OF a, of 0] a b show ?thesis by simp
qed

subsection \<open>No range check in the hook\<close>




end
